theory Spec2Isabelle
  imports
    Complex_Main
    "HOL-Library.Sublist"
    "HOL-Library.Char_ord"
    "HOL-Library.List_Lexorder"
begin

section \<open>Python strings and list slices\<close>

text \<open>
  Python strings are modelled as \<^typ>\<open>string\<close>, restricted to ASCII text. On ASCII,
  \<^verbatim>\<open>str.isspace\<close> holds for the code points 9 to 13, 28 to 31 and 32, and
  \<^verbatim>\<open>str.lower\<close> maps \<^verbatim>\<open>A-Z\<close> to \<^verbatim>\<open>a-z\<close> and leaves everything else alone.
\<close>

definition isspace :: "char \<Rightarrow> bool" where
  "isspace c =
     (let n = (of_char c :: nat) in (9 \<le> n \<and> n \<le> 13) \<or> (28 \<le> n \<and> n \<le> 32))"

definition lower_char :: "char \<Rightarrow> char" where
  "lower_char c =
     (let n = (of_char c :: nat) in if 65 \<le> n \<and> n \<le> 90 then char_of (n + 32) else c)"

definition lower :: "string \<Rightarrow> string" where
  "lower s = map lower_char s"

definition lstrip :: "string \<Rightarrow> string" where
  "lstrip s = dropWhile isspace s"

definition rstrip :: "string \<Rightarrow> string" where
  "rstrip s = rev (dropWhile isspace (rev s))"

definition strip :: "string \<Rightarrow> string" where
  "strip s = lstrip (rstrip s)"

text \<open>\<^verbatim>\<open>s.lstrip(chars)\<close>: drop the leading characters that occur in \<open>chars\<close>.\<close>

definition lstrip_chars :: "string \<Rightarrow> string \<Rightarrow> string" where
  "lstrip_chars chars s = dropWhile (\<lambda>c. c \<in> set chars) s"

definition startswith :: "string \<Rightarrow> string \<Rightarrow> bool" where
  "startswith s p = prefix p s"

text \<open>\<^verbatim>\<open>needle in hay\<close> on strings: \<open>needle\<close> occurs as a contiguous substring.\<close>

fun py_in :: "string \<Rightarrow> string \<Rightarrow> bool" where
  "py_in needle [] = (needle = [])"
| "py_in needle (c # cs) = (prefix needle (c # cs) \<or> py_in needle cs)"

text \<open>\<^verbatim>\<open>sep.join(xs)\<close>.\<close>

fun join :: "string \<Rightarrow> string list \<Rightarrow> string" where
  "join sep [] = []"
| "join sep [x] = x"
| "join sep (x # y # ys) = x @ sep @ join sep (y # ys)"

definition newline :: string where
  "newline = [CHR 0x0A]"

text \<open>
  \<^verbatim>\<open>xs[i:j]\<close> with Python's rules: a negative bound counts from the end, and every
  bound is clamped into \<open>[0, len(xs)]\<close>.
\<close>

definition slice_bound :: "nat \<Rightarrow> int \<Rightarrow> nat" where
  "slice_bound n k = (if k < 0 then nat (max (k + int n) 0) else min (nat k) n)"

definition py_slice :: "'a list \<Rightarrow> int \<Rightarrow> int \<Rightarrow> 'a list" where
  "py_slice xs i j =
     (let lo = slice_bound (length xs) i; hi = slice_bound (length xs) j
      in take (hi - lo) (drop lo xs))"

text \<open>\<^verbatim>\<open>xs[i:]\<close>.\<close>

definition py_slice_from :: "'a list \<Rightarrow> int \<Rightarrow> 'a list" where
  "py_slice_from xs i = drop (slice_bound (length xs) i) xs"


section \<open>Paths (pathlib, POSIX flavour)\<close>

text \<open>
  A \<^verbatim>\<open>pathlib.Path\<close> is its anchor (absolute or relative) and its list of components.
\<close>

datatype path = Abs "string list" | Rel "string list"

fun parts :: "path \<Rightarrow> string list" where
  "parts (Abs ps) = ps"
| "parts (Rel ps) = ps"

fun is_absolute :: "path \<Rightarrow> bool" where
  "is_absolute (Abs ps) = True"
| "is_absolute (Rel ps) = False"

text \<open>\<^verbatim>\<open>s.split(sep)\<close> for a one-character separator.\<close>

fun split_on :: "char \<Rightarrow> string \<Rightarrow> string list" where
  "split_on d [] = [[]]"
| "split_on d (c # cs) =
     (if c = d then [] # split_on d cs
      else (case split_on d cs of [] \<Rightarrow> [[c]] | w # ws \<Rightarrow> (c # w) # ws))"

text \<open>
  \<^verbatim>\<open>Path(s)\<close>: the string is cut at the slashes, empty components and \<^verbatim>\<open>.\<close> are
  dropped, and a leading slash makes the path absolute. (POSIX keeps a root of exactly two
  slashes apart from the root of one slash; the model does not.)
\<close>

definition Path_of :: "string \<Rightarrow> path" where
  "Path_of s =
     (let ps = filter (\<lambda>c. c \<noteq> [] \<and> c \<noteq> ''.'') (split_on CHR ''/'' s)
      in if startswith s ''/'' then Abs ps else Rel ps)"

text \<open>\<^verbatim>\<open>a / b\<close>: an absolute right operand replaces the left one.\<close>

fun joinpath :: "path \<Rightarrow> path \<Rightarrow> path" where
  "joinpath a (Abs q) = Abs q"
| "joinpath (Abs p) (Rel q) = Abs (p @ q)"
| "joinpath (Rel p) (Rel q) = Rel (p @ q)"

text \<open>\<^verbatim>\<open>p.relative_to(other)\<close>; \<open>None\<close> stands for the \<^verbatim>\<open>ValueError\<close>.\<close>

fun relative_to :: "path \<Rightarrow> path \<Rightarrow> path option" where
  "relative_to (Abs p) (Abs r) = (if prefix r p then Some (Rel (drop (length r) p)) else None)"
| "relative_to (Rel p) (Rel r) = (if prefix r p then Some (Rel (drop (length r) p)) else None)"
| "relative_to (Abs p) (Rel r) = None"
| "relative_to (Rel p) (Abs r) = None"

text \<open>\<^verbatim>\<open>str(p)\<close>.\<close>

fun str_path :: "path \<Rightarrow> string" where
  "str_path (Abs []) = ''/''"
| "str_path (Abs (c # cs)) = ''/'' @ join ''/'' (c # cs)"
| "str_path (Rel []) = ''.''"
| "str_path (Rel (c # cs)) = join ''/'' (c # cs)"

text \<open>\<^verbatim>\<open>p.name\<close> and \<^verbatim>\<open>p.suffix\<close> (as up to Python 3.12).\<close>

definition name_of :: "path \<Rightarrow> string" where
  "name_of p = (case parts p of [] \<Rightarrow> [] | _ \<Rightarrow> last (parts p))"

definition rfind :: "string \<Rightarrow> char \<Rightarrow> int" where
  "rfind s c =
     (if c \<in> set s then int (length s) - 1 - int (length (takeWhile (\<lambda>x. x \<noteq> c) (rev s)))
      else - 1)"

definition suffix_of :: "path \<Rightarrow> string" where
  "suffix_of p =
     (let name = name_of p; i = rfind name CHR ''.''
      in if 0 < i \<and> i < int (length name) - 1 then py_slice_from name i else [])"

text \<open>
  The idiom
  \<^verbatim>\<open>try: rel = str(p.relative_to(REPO_ROOT))  except ValueError: rel = str(p)\<close>
  that every operation uses for the path it reports.
\<close>

definition rel_str :: "path \<Rightarrow> path \<Rightarrow> string" where
  "rel_str repo p = (case relative_to p repo of Some r \<Rightarrow> str_path r | None \<Rightarrow> str_path p)"


section \<open>The environment: repository root and file system\<close>

text \<open>
  The file system is a parameter. \<open>glob_md p\<close> is the list that
  \<^verbatim>\<open>p.glob("**/*.md")\<close> (equally \<^verbatim>\<open>p.rglob("*.md")\<close>) yields, in the order the
  operating system enumerates it; \<open>read_lines p\<close> is
  \<^verbatim>\<open>p.read_text(encoding="utf-8", errors="ignore").splitlines()\<close>, \<open>None\<close> when the read
  raises \<^verbatim>\<open>OSError\<close>; \<open>st_mtime p\<close> is \<^verbatim>\<open>p.stat().st_mtime\<close>, \<open>None\<close> when it raises
  \<^verbatim>\<open>OSError\<close>. Modification times are finite floats that the code only compares, so
  they are read as reals.
\<close>

record env =
  REPO_ROOT :: path
  path_exists :: "path \<Rightarrow> bool"
  is_file :: "path \<Rightarrow> bool"
  is_dir :: "path \<Rightarrow> bool"
  glob_md :: "path \<Rightarrow> path list"
  read_lines :: "path \<Rightarrow> string list option"
  resolve :: "path \<Rightarrow> path"
  st_mtime :: "path \<Rightarrow> real option"

text \<open>
  The exceptions: \<open>UnknownScope\<close> is the \<^verbatim>\<open>ValueError\<close> for a scope that is not
  configured, \<open>FileNotFound\<close> the \<^verbatim>\<open>FileNotFoundError\<close> of \<^verbatim>\<open>read_section\<close>,
  \<open>StartBeyondEnd s n\<close> its \<^verbatim>\<open>ValueError\<close> whose message gives the start line \<open>s\<close> and
  the number \<open>n\<close> of lines of the file, \<open>EndBeforeStart\<close> its \<^verbatim>\<open>ValueError\<close> for an
  end line before the start line, and \<open>OSError p\<close> an error of the operating system
  while reading or inspecting \<open>p\<close>.
\<close>

datatype error =
  UnknownScope string
| FileNotFound string
| StartBeyondEnd int nat
| EndBeforeStart
| OSError path

text \<open>The two \<^verbatim>\<open>ValueError\<close>s of \<^verbatim>\<open>read_section\<close> are its range errors.\<close>

fun is_range_error :: "error \<Rightarrow> bool" where
  "is_range_error (StartBeyondEnd s n) = True"
| "is_range_error EndBeforeStart = True"
| "is_range_error e = False"

definition SCOPES :: "string list" where
  "SCOPES = [''unified'', ''api'', ''guides'', ''python'', ''node'', ''agents'', ''cookbook'']"

text \<open>The dictionary \<^verbatim>\<open>SCOPE_PATHS\<close>, in insertion order.\<close>

definition SCOPE_PATHS :: "path \<Rightarrow> (string \<times> path list) list" where
  "SCOPE_PATHS repo =
     [(''unified'', [joinpath repo (Path_of ''openai-docs-unified.md'')]),
      (''api'', [joinpath repo (Path_of ''openai-docs-api-reference'')]),
      (''guides'', [joinpath repo (Path_of ''openai-docs-guides'')]),
      (''python'', [joinpath repo (Path_of ''openai-python-docs'')]),
      (''node'', [joinpath repo (Path_of ''openai-node-js-docs'')]),
      (''agents'', [joinpath repo (Path_of ''openai-agents-python-docs'')]),
      (''cookbook'', [joinpath repo (Path_of ''openai-cookbook'')])]"


section \<open>docs\_index: enumeration and search\<close>

text \<open>A hit, with the keys \<^verbatim>\<open>file\<close>, \<^verbatim>\<open>line\<close> and \<^verbatim>\<open>snippet\<close> of the dictionary.\<close>

record search_hit =
  hit_file :: string
  hit_line :: int
  hit_snippet :: string

text \<open>The body of the loop of \<^verbatim>\<open>get_files_for_scope\<close> for one root.\<close>

definition scope_root_files :: "env \<Rightarrow> path \<Rightarrow> path list" where
  "scope_root_files E p =
     (if is_file E p \<and> suffix_of p = ''.md'' then [p]
      else if is_dir E p then glob_md E p
      else [])"

definition get_files_for_scope :: "env \<Rightarrow> string \<Rightarrow> error + path list" where
  "get_files_for_scope E scope =
     (case map_of (SCOPE_PATHS (REPO_ROOT E)) scope of
        None \<Rightarrow> Inl (UnknownScope scope)
      | Some paths \<Rightarrow> Inr (concat (map (scope_root_files E) paths)))"

text \<open>
  The loop of \<^verbatim>\<open>search_in_file\<close> over \<^verbatim>\<open>enumerate(lines)\<close>: every line whose lowered
  text contains the lowered query appends one hit.
\<close>

definition file_hits :: "string \<Rightarrow> string \<Rightarrow> string list \<Rightarrow> search_hit list" where
  "file_hits rel_file query lines =
     map (\<lambda>(i, line). \<lparr>hit_file = rel_file, hit_line = int i + 1, hit_snippet = strip line\<rparr>)
       (filter (\<lambda>(i, line). py_in (lower query) (lower line)) (enumerate 0 lines))"

definition search_in_file :: "env \<Rightarrow> path \<Rightarrow> string \<Rightarrow> error + search_hit list" where
  "search_in_file E file_path query =
     (case read_lines E file_path of
        None \<Rightarrow> Inl (OSError file_path)
      | Some lines \<Rightarrow> Inr (file_hits (rel_str (REPO_ROOT E) file_path) query lines))"

text \<open>
  The loop of \<^verbatim>\<open>search_scope\<close> over the files, with its \<^verbatim>\<open>break\<close> once the
  accumulated results reach the limit.
\<close>

fun search_files ::
  "env \<Rightarrow> string \<Rightarrow> int \<Rightarrow> path list \<Rightarrow> search_hit list \<Rightarrow> error + search_hit list" where
  "search_files E query limit [] results = Inr results"
| "search_files E query limit (f # fs) results =
     (case search_in_file E f query of
        Inl e \<Rightarrow> Inl e
      | Inr hits \<Rightarrow>
          (let results' = results @ hits
           in if int (length results') \<ge> limit then Inr results'
              else search_files E query limit fs results'))"

definition search_scope :: "env \<Rightarrow> string \<Rightarrow> string \<Rightarrow> int \<Rightarrow> error + search_hit list" where
  "search_scope E scope query limit =
     (if query = [] \<or> strip query = [] then Inr []
      else
        (let limit' = (if limit \<le> 0 then 20 else limit)
         in case get_files_for_scope E scope of
              Inl e \<Rightarrow> Inl e
            | Inr files \<Rightarrow>
                (case search_files E query limit' files [] of
                   Inl e \<Rightarrow> Inl e
                 | Inr results \<Rightarrow> Inr (py_slice results 0 limit'))))"

text \<open>The tool \<^verbatim>\<open>search_openai_docs\<close> of docs\_tools.\<close>

definition search_openai_docs :: "env \<Rightarrow> string \<Rightarrow> string \<Rightarrow> int \<Rightarrow> error + search_hit list" where
  "search_openai_docs E query scope limit =
     (if scope \<notin> set SCOPES then Inl (UnknownScope scope)
      else
        (let query' = (if query \<noteq> [] then strip query else [])
         in if query' = [] then Inr []
            else
              (let limit' = (if limit \<le> 0 then 10 else limit)
               in search_scope E scope query' limit')))"


section \<open>docs\_index: reading a line range\<close>

text \<open>
  The dictionary that \<^verbatim>\<open>read_section\<close> and the header extractor return, with its keys
  \<^verbatim>\<open>file\<close>, \<^verbatim>\<open>start_line\<close>, \<^verbatim>\<open>end_line\<close>, \<^verbatim>\<open>content\<close> and \<^verbatim>\<open>line_count\<close>.
\<close>

record section_slice =
  sec_file :: string
  sec_start_line :: int
  sec_end_line :: int
  sec_content :: string
  sec_line_count :: int

definition read_section :: "env \<Rightarrow> string \<Rightarrow> int \<Rightarrow> int option \<Rightarrow> int \<Rightarrow> error + section_slice" where
  "read_section E file start_line end_line max_lines =
     (let path = Path_of file;
          path = (if \<not> is_absolute path then joinpath (REPO_ROOT E) path else path)
      in if \<not> path_exists E path then Inl (FileNotFound file)
         else
           (case read_lines E path of
              None \<Rightarrow> Inl (OSError path)
            | Some lines \<Rightarrow>
                (let start_line = (if start_line < 1 then 1 else start_line);
                     start_idx = start_line - 1
                 in if start_idx \<ge> int (length lines)
                    then Inl (StartBeyondEnd start_line (length lines))
                    else
                      (case
                         (case end_line of
                            Some e \<Rightarrow>
                              if e < start_line then Inl EndBeforeStart
                              else Inr (min e (int (length lines)))
                          | None \<Rightarrow> Inr (min (start_line - 1 + max_lines) (int (length lines))))
                       of
                         Inl err \<Rightarrow> Inl err
                       | Inr end_idx \<Rightarrow>
                           (let slice_lines = py_slice lines start_idx end_idx
                            in Inr \<lparr>sec_file = rel_str (REPO_ROOT E) path,
                                    sec_start_line = start_line,
                                    sec_end_line = end_idx,
                                    sec_content = join newline slice_lines,
                                    sec_line_count = int (length slice_lines)\<rparr>)))))"


section \<open>docs\_tools: listing the files of a scope\<close>

text \<open>
  The candidates of one root in \<^verbatim>\<open>list_openai_doc_files\<close> and in
  \<^verbatim>\<open>get_last_update_metadata\<close>: the root itself when it is a file (whatever its
  suffix), every Markdown file below it when it is a directory, nothing otherwise.
\<close>

definition candidate_files :: "env \<Rightarrow> path \<Rightarrow> path list" where
  "candidate_files E r =
     (if is_file E r then [r] else if is_dir E r then glob_md E r else [])"

text \<open>The inner loop body: the state is the set \<open>seen\<close> and the list \<open>files\<close>.\<close>

definition add_resolved :: "env \<Rightarrow> path \<Rightarrow> path set \<times> path list \<Rightarrow> path set \<times> path list" where
  "add_resolved E p st =
     (let rp = resolve E p
      in if rp \<notin> fst st then (insert rp (fst st), snd st @ [rp]) else st)"

definition collect_files :: "env \<Rightarrow> path list \<Rightarrow> path set \<times> path list" where
  "collect_files E roots =
     fold (\<lambda>r st. fold (add_resolved E) (candidate_files E r) st) roots ({}, [])"

definition list_openai_doc_files :: "env \<Rightarrow> string \<Rightarrow> error + string list" where
  "list_openai_doc_files E scope =
     (case map_of (SCOPE_PATHS (REPO_ROOT E)) scope of
        None \<Rightarrow> Inl (UnknownScope scope)
      | Some roots \<Rightarrow>
          Inr (sort (map (rel_str (REPO_ROOT E)) (snd (collect_files E roots)))))"


section \<open>docs\_tools: the newest file\<close>

text \<open>
  The result of \<^verbatim>\<open>get_last_update_metadata\<close>. Its field \<^verbatim>\<open>last_modified_iso\<close> is
  the same time stamp printed as a date and is left out.
\<close>

record metadata =
  repo_root :: string
  last_modified_unix :: real
  last_modified_file :: string

text \<open>
  The innermost loop body of \<^verbatim>\<open>get_last_update_metadata\<close>; the state is
  \<open>(latest_mtime, latest_path)\<close>.
\<close>

definition update_latest :: "env \<Rightarrow> path \<Rightarrow> real \<times> path option \<Rightarrow> real \<times> path option" where
  "update_latest E p st =
     (case st_mtime E p of
        None \<Rightarrow> st
      | Some mtime \<Rightarrow> if mtime > fst st then (mtime, Some p) else st)"

definition walk_roots :: "env \<Rightarrow> path list \<Rightarrow> real \<times> path option" where
  "walk_roots E roots =
     fold (\<lambda>r st. fold (update_latest E) (candidate_files E r) st) roots (0, None)"

definition get_last_update_metadata :: "env \<Rightarrow> error + metadata" where
  "get_last_update_metadata E =
     (let st = walk_roots E (concat (map snd (SCOPE_PATHS (REPO_ROOT E))))
      in case
           (case snd st of
              Some p \<Rightarrow> Inr (fst st, p)
            | None \<Rightarrow>
                (case st_mtime E (REPO_ROOT E) of
                   None \<Rightarrow> Inl (OSError (REPO_ROOT E))
                 | Some m \<Rightarrow> Inr (m, REPO_ROOT E)))
         of
           Inl err \<Rightarrow> Inl err
         | Inr (latest_mtime, latest_path) \<Rightarrow>
             Inr \<lparr>repo_root = str_path (REPO_ROOT E),
                  last_modified_unix = latest_mtime,
                  last_modified_file = rel_str (REPO_ROOT E) latest_path\<rparr>)"


section \<open>docs\_tools: a section by its header\<close>

text \<open>\<^verbatim>\<open>len(stripped) - len(stripped.lstrip("#"))\<close>.\<close>

definition hash_count_of :: "string \<Rightarrow> int" where
  "hash_count_of stripped = int (length stripped) - int (length (lstrip_chars ''#'' stripped))"

text \<open>
  The body of the first loop of \<^verbatim>\<open>_extract_section_by_header_from_file\<close> for one line:
  \<open>Some hash_count\<close> when the loop stops at this line, \<open>None\<close> at each \<^verbatim>\<open>continue\<close>
  and when the text differs.
\<close>

definition header_at :: "string \<Rightarrow> int option \<Rightarrow> string \<Rightarrow> int option" where
  "header_at target_text header_level line =
     (let stripped = lstrip line
      in if \<not> startswith stripped ''#'' then None
         else
           (let hash_count = hash_count_of stripped
            in if hash_count \<le> 0 then None
               else
                 (let text_part = lstrip (py_slice_from stripped hash_count)
                  in if text_part = [] then None
                     else if (case header_level of Some l \<Rightarrow> hash_count \<noteq> l | None \<Rightarrow> False)
                          then None
                     else if lower text_part = target_text then Some hash_count
                     else None)))"

fun find_header :: "string \<Rightarrow> int option \<Rightarrow> nat \<Rightarrow> string list \<Rightarrow> (nat \<times> int) option" where
  "find_header target_text header_level i [] = None"
| "find_header target_text header_level i (line # rest) =
     (case header_at target_text header_level line of
        Some hash_count \<Rightarrow> Some (i, hash_count)
      | None \<Rightarrow> find_header target_text header_level (Suc i) rest)"

text \<open>The test of the second loop: the line at which the section ends.\<close>

definition ends_section :: "int \<Rightarrow> string \<Rightarrow> bool" where
  "ends_section effective_level line =
     (let stripped = lstrip line
      in startswith stripped ''#'' \<and> hash_count_of stripped \<le> effective_level)"

text \<open>The second loop, over \<^verbatim>\<open>range(start_idx + 1, len(lines))\<close>.\<close>

fun find_end :: "int \<Rightarrow> string list \<Rightarrow> nat list \<Rightarrow> nat option" where
  "find_end effective_level lines [] = None"
| "find_end effective_level lines (j # js) =
     (if ends_section effective_level (lines ! j) then Some j
      else find_end effective_level lines js)"

definition section_of_lines ::
  "string \<Rightarrow> string \<Rightarrow> int option \<Rightarrow> int option \<Rightarrow> string list \<Rightarrow> section_slice option" where
  "section_of_lines relative_file header header_level max_lines lines =
     (let target_text = lower (strip header)
      in case find_header target_text header_level 0 lines of
           None \<Rightarrow> None
         | Some (start_idx, effective_level) \<Rightarrow>
             (let end_idx =
                    (case find_end effective_level lines [start_idx + 1 ..< length lines] of
                       Some j \<Rightarrow> int j
                     | None \<Rightarrow> int (length lines));
                  end_idx =
                    (case max_lines of
                       Some m \<Rightarrow>
                         if end_idx - int start_idx > m then int start_idx + m else end_idx
                     | None \<Rightarrow> end_idx);
                  start_line = int start_idx + 1;
                  end_line = end_idx
              in Some \<lparr>sec_file = relative_file,
                       sec_start_line = start_line,
                       sec_end_line = end_line,
                       sec_content = join newline (py_slice lines (int start_idx) end_idx),
                       sec_line_count = end_line - start_line + 1\<rparr>))"

definition extract_section_by_header_from_file ::
  "env \<Rightarrow> string \<Rightarrow> string \<Rightarrow> int option \<Rightarrow> int option \<Rightarrow> error + section_slice option" where
  "extract_section_by_header_from_file E relative_file header header_level max_lines =
     (let path = joinpath (REPO_ROOT E) (Path_of relative_file)
      in if \<not> is_file E path then Inr None
         else
           (case read_lines E path of
              None \<Rightarrow> Inl (OSError path)
            | Some lines \<Rightarrow>
                Inr (section_of_lines relative_file header header_level max_lines lines)))"


section \<open>Notions of the specification\<close>

text \<open>
  Lines \<open>a\<close> to \<open>b\<close> of a file, 1-based and inclusive (empty when \<open>b < a\<close>).
\<close>

definition lines_incl :: "string list \<Rightarrow> int \<Rightarrow> int \<Rightarrow> string list" where
  "lines_incl lines a b = map (\<lambda>k. lines ! nat (k - 1)) [a..b]"


text \<open>
  The effective end of a line range: \<open>min(endLine, totalLines)\<close> when the end line is
  supplied, \<open>min(startLine - 1 + maxLines, totalLines)\<close> when it is omitted.
\<close>

definition effective_end :: "string list \<Rightarrow> int \<Rightarrow> int option \<Rightarrow> int \<Rightarrow> int" where
  "effective_end lines start_line end_line max_lines =
     (case end_line of
        Some e \<Rightarrow> min e (int (length lines))
      | None \<Rightarrow> min (start_line - 1 + max_lines) (int (length lines)))"

text \<open>
  A well-formed slice of a file: 1-based bounds inside the file, at least one line, the
  line count equal to \<open>end_line - start_line + 1\<close>, and the content equal to exactly
  these lines, newline-joined.
\<close>

definition slice_of :: "string list \<Rightarrow> section_slice \<Rightarrow> bool" where
  "slice_of lines r \<longleftrightarrow>
     1 \<le> sec_start_line r \<and> sec_start_line r \<le> sec_end_line r \<and>
     sec_end_line r \<le> int (length lines) \<and>
     sec_line_count r = sec_end_line r - sec_start_line r + 1 \<and>
     1 \<le> sec_line_count r \<and>
     sec_content r = join newline (lines_incl lines (sec_start_line r) (sec_end_line r)) \<and>
     int (length (lines_incl lines (sec_start_line r) (sec_end_line r))) = sec_line_count r"

text \<open>
  Headings. The level of a line is its count of leading \<open>#\<close> characters after
  left-trimming; its visible text is what follows these characters.
\<close>

definition heading_level :: "string \<Rightarrow> nat" where
  "heading_level line = length (takeWhile (\<lambda>c. c = CHR ''#'') (lstrip line))"

definition text_after_hashes :: "string \<Rightarrow> string" where
  "text_after_hashes line = dropWhile (\<lambda>c. c = CHR ''#'') (lstrip line)"

text \<open>
  A heading line, in the specification's sense: one or more \<open>#\<close> characters followed by
  non-empty visible text.
\<close>

definition is_heading_line :: "string \<Rightarrow> bool" where
  "is_heading_line line \<longleftrightarrow> 1 \<le> heading_level line \<and> lstrip (text_after_hashes line) \<noteq> []"

text \<open>
  A line matches the requested header when it is a heading line whose visible text, with
  the white space between the \<open>#\<close> characters and the text removed, equals the trimmed
  header case-insensitively, at the requested level when one is given.
\<close>

definition heading_matches :: "string \<Rightarrow> int option \<Rightarrow> string \<Rightarrow> bool" where
  "heading_matches header header_level line \<longleftrightarrow>
     1 \<le> heading_level line \<and> lstrip (text_after_hashes line) \<noteq> [] \<and>
     lower (lstrip (text_after_hashes line)) = lower (strip header) \<and>
     (case header_level of Some l \<Rightarrow> int (heading_level line) = l | None \<Rightarrow> True)"

text \<open>
  The same with the visible text trimmed on both sides, as the specification words it.
\<close>

definition heading_matches_trimmed :: "string \<Rightarrow> int option \<Rightarrow> string \<Rightarrow> bool" where
  "heading_matches_trimmed header header_level line \<longleftrightarrow>
     1 \<le> heading_level line \<and> strip (text_after_hashes line) \<noteq> [] \<and>
     lower (strip (text_after_hashes line)) = lower (strip header) \<and>
     (case header_level of Some l \<Rightarrow> int (heading_level line) = l | None \<Rightarrow> True)"

text \<open>
  A line that, left-trimmed, begins with between one and \<open>L\<close> characters \<open>#\<close>, whatever
  follows them.
\<close>

definition hash_line_upto :: "nat \<Rightarrow> string \<Rightarrow> bool" where
  "hash_line_upto L line \<longleftrightarrow> 1 \<le> heading_level line \<and> heading_level line \<le> L"

text \<open>
  The end of a section as the specification words it: the index of the next heading line
  (with non-empty visible text) of the same or a shallower level, or the end of the file.
\<close>

definition spec_section_end :: "string list \<Rightarrow> nat \<Rightarrow> nat" where
  "spec_section_end lines i =
     (case List.find
             (\<lambda>j. is_heading_line (lines ! j) \<and> heading_level (lines ! j) \<le> heading_level (lines ! i))
             [i + 1 ..< length lines] of
        Some j \<Rightarrow> j
      | None \<Rightarrow> length lines)"

text \<open>
  The exclusive end \<open>e\<close> of a section that starts at index \<open>i\<close>, capped at \<open>maxLines\<close>
  lines from the start.
\<close>

definition truncated_end :: "int option \<Rightarrow> nat \<Rightarrow> nat \<Rightarrow> int" where
  "truncated_end max_lines i e =
     (case max_lines of None \<Rightarrow> int e | Some m \<Rightarrow> min (int e) (int i + m))"


text \<open>
  The limit that \<open>search_scope\<close> works with: the requested one when it is positive, 20
  otherwise.
\<close>

definition effective_limit :: "int \<Rightarrow> nat" where
  "effective_limit limit = nat (if limit \<le> 0 then 20 else limit)"

text \<open>The hits of one file in line order; none when the file cannot be read.\<close>

definition hits_in :: "env \<Rightarrow> string \<Rightarrow> path \<Rightarrow> search_hit list" where
  "hits_in E query f =
     (case read_lines E f of
        None \<Rightarrow> []
      | Some lines \<Rightarrow> file_hits (rel_str (REPO_ROOT E) f) query lines)"


text \<open>
  What \<^verbatim>\<open>Path.resolve()\<close> yields: an absolute path whose components are not empty,
  contain no slash and are not \<^verbatim>\<open>.\<close>.
\<close>

definition clean_component :: "string \<Rightarrow> bool" where
  "clean_component c \<longleftrightarrow> c \<noteq> [] \<and> CHR ''/'' \<notin> set c \<and> c \<noteq> ''.''"

definition resolved_path :: "path \<Rightarrow> bool" where
  "resolved_path p = (case p of Abs cs \<Rightarrow> list_all clean_component cs | Rel cs \<Rightarrow> False)"

text \<open>All candidates of \<^verbatim>\<open>get_last_update_metadata\<close>, in the order of its walk.\<close>

definition all_candidates :: "env \<Rightarrow> path list" where
  "all_candidates E =
     concat (map (candidate_files E) (concat (map snd (SCOPE_PATHS (REPO_ROOT E)))))"


section \<open>Example environments\<close>

text \<open>
  A file system given by its files (path, lines, modification time) and its directories
  (path, the Markdown files that globbing yields below it, in that order).
\<close>

definition mk_env :: "(path \<times> string list \<times> real) list \<Rightarrow> (path \<times> path list) list \<Rightarrow> env" where
  "mk_env files dirs =
     \<lparr>REPO_ROOT = Abs [''repo''],
      path_exists = (\<lambda>p. p \<in> set (map fst files) \<or> p \<in> set (map fst dirs)),
      is_file = (\<lambda>p. p \<in> set (map fst files)),
      is_dir = (\<lambda>p. p \<in> set (map fst dirs)),
      glob_md = (\<lambda>p. case map_of dirs p of Some l \<Rightarrow> l | None \<Rightarrow> []),
      read_lines = (\<lambda>p. map_option fst (map_of files p)),
      resolve = (\<lambda>p. p),
      st_mtime =
        (\<lambda>p. if p \<in> set (map fst dirs) then Some 1700000000
             else map_option snd (map_of files p))\<rparr>"

definition demo_lines :: "string list" where
  "demo_lines = [''## A'', ''t'', ''#'', ''u'', ''## B'']"

definition demo_env :: env where
  "demo_env =
     mk_env
       [(Abs [''repo'', ''openai-docs-guides'', ''b.md''], [''x one'', ''two'', '' X three ''], 5),
        (Abs [''repo'', ''openai-docs-guides'', ''a.md''], [''## Intro '', ''x''], 7),
        (Abs [''repo'', ''openai-docs-unified.md''], demo_lines, 3)]
       [(Abs [''repo''], []),
        (Abs [''repo'', ''openai-docs-guides''],
           [Abs [''repo'', ''openai-docs-guides'', ''b.md''],
            Abs [''repo'', ''openai-docs-guides'', ''a.md'']])]"


text \<open>The hits for \<open>x\<close> in the scope \<open>guides\<close> of the example.\<close>

definition demo_hits :: "search_hit list" where
  "demo_hits =
     [\<lparr>hit_file = ''openai-docs-guides/b.md'', hit_line = 1, hit_snippet = ''x one''\<rparr>,
      \<lparr>hit_file = ''openai-docs-guides/b.md'', hit_line = 3, hit_snippet = ''X three''\<rparr>,
      \<lparr>hit_file = ''openai-docs-guides/a.md'', hit_line = 2, hit_snippet = ''x''\<rparr>]"


text \<open>The example with \<open>b.md\<close> a symbolic link to \<open>a.md\<close>.\<close>

definition symlink_env :: env where
  "symlink_env =
     demo_env\<lparr>resolve :=
       (\<lambda>p. if p = Abs [''repo'', ''openai-docs-guides'', ''b.md'']
            then Abs [''repo'', ''openai-docs-guides'', ''a.md''] else p)\<rparr>"

text \<open>The example with \<open>b.md\<close> a symbolic link to a file outside the repository.\<close>

definition outside_env :: env where
  "outside_env =
     demo_env\<lparr>resolve :=
       (\<lambda>p. if p = Abs [''repo'', ''openai-docs-guides'', ''b.md'']
            then Abs [''tmp'', ''outside.md''] else p)\<rparr>"

text \<open>A repository whose unified file is empty.\<close>

definition empty_env :: env where
  "empty_env =
     mk_env [(Abs [''repo'', ''openai-docs-unified.md''], [], 3)] [(Abs [''repo''], [])]"

text \<open>
  A repository whose only Markdown file carries the modification time 0 (the epoch), as
  files restored with zeroed time stamps do.
\<close>

definition epoch_env :: env where
  "epoch_env =
     mk_env [(Abs [''repo'', ''openai-docs-unified.md''], demo_lines, 0)] [(Abs [''repo''], [])]"


section \<open>Slices and blank strings\<close>

lemma length_lines_incl: "length (lines_incl lines a b) = nat (b - a + 1)"
  by (simp add: lines_incl_def)

lemma py_slice_lines_incl:
  assumes "0 \<le> i" "i \<le> j" "j \<le> int (length xs)"
  shows "py_slice xs i j = lines_incl xs (i + 1) j"
proof (rule nth_equalityI)
  have lo: "slice_bound (length xs) i = nat i" and hi: "slice_bound (length xs) j = nat j"
    using assms by (auto simp: slice_bound_def)
  show len: "length (py_slice xs i j) = length (lines_incl xs (i + 1) j)"
    using assms by (simp add: py_slice_def lo hi length_lines_incl Let_def)
  fix k assume "k < length (py_slice xs i j)"
  then have k: "k < nat j - nat i" using assms by (simp add: py_slice_def lo hi Let_def)
  then have "i + 1 + int k \<le> j" using assms by linarith
  then have "[i + 1..j] ! k = i + 1 + int k" by (rule nth_upto)
  moreover have "k < length [i + 1..j]" using k assms by simp
  ultimately have "lines_incl xs (i + 1) j ! k = xs ! nat (i + 1 + int k - 1)"
    unfolding lines_incl_def by (simp only: nth_map)
  moreover have "py_slice xs i j ! k = xs ! (nat i + k)"
    using k assms by (simp add: py_slice_def lo hi Let_def)
  moreover have "nat (i + 1 + int k - 1) = nat i + k" using assms by linarith
  ultimately show "py_slice xs i j ! k = lines_incl xs (i + 1) j ! k" by simp
qed

lemma py_slice_take: "0 \<le> j \<Longrightarrow> py_slice xs 0 j = take (nat j) xs"
  by (simp add: py_slice_def slice_bound_def Let_def min_def)

lemma rstrip_blank: "\<forall>c\<in>set s. isspace c \<Longrightarrow> rstrip s = []"
  by (simp add: rstrip_def dropWhile_eq_Nil_conv)

lemma strip_blank: "\<forall>c\<in>set s. isspace c \<Longrightarrow> strip s = []"
  by (simp add: strip_def rstrip_blank lstrip_def)


section \<open>Blank queries\<close>

text \<open>
  Claim C8. For every scope string, recognised or not, \<open>search_scope\<close> with an empty or
  whitespace-only query returns the empty list and raises nothing: the check of the query
  comes before the scope is looked up. The tool \<open>search_openai_docs\<close> checks the scope
  first: an unrecognised scope is an error whatever the query is, and only for a
  recognised scope does a blank query give the empty list.
\<close>

theorem search_scope_blank_query:
  "((\<forall>c\<in>set query. isspace c) \<longrightarrow> search_scope E scope query limit = Inr []) \<and>
   (scope \<notin> set SCOPES \<longrightarrow> search_openai_docs E query scope limit = Inl (UnknownScope scope)) \<and>
   (scope \<in> set SCOPES \<and> (\<forall>c\<in>set query. isspace c) \<longrightarrow>
      search_openai_docs E query scope limit = Inr [])"
  by (simp add: search_scope_def search_openai_docs_def strip_blank)

theorem search_scope_blank_query_witness:
  "search_scope demo_env ''nope'' ''  '' 5 = Inr [] \<and>
   search_openai_docs demo_env ''  '' ''nope'' 5 = Inl (UnknownScope ''nope'') \<and>
   search_openai_docs demo_env ''  '' ''api'' 5 = Inr []"
  using search_scope_blank_query [of "''  ''" demo_env "''nope''" 5]
    search_scope_blank_query [of "''  ''" demo_env "''api''" 5]
  by (simp add: isspace_def SCOPES_def)


section \<open>Reading a line range\<close>

text \<open>
  \<open>read_section\<close> with its path resolved and its start line clamped: the form the
  proofs below work on.
\<close>

lemma read_section_unfold:
  "read_section E file start_line end_line max_lines =
     (let path = joinpath (REPO_ROOT E) (Path_of file)
      in if \<not> path_exists E path then Inl (FileNotFound file)
         else
           (case read_lines E path of
              None \<Rightarrow> Inl (OSError path)
            | Some lines \<Rightarrow>
                (let s = max 1 start_line
                 in if s > int (length lines)
                    then Inl (StartBeyondEnd s (length lines))
                    else
                      (case end_line of
                         Some e \<Rightarrow>
                           if e < s then Inl EndBeforeStart
                           else
                             Inr \<lparr>sec_file = rel_str (REPO_ROOT E) path,
                                  sec_start_line = s,
                                  sec_end_line = min e (int (length lines)),
                                  sec_content =
                                    join newline
                                      (py_slice lines (s - 1) (min e (int (length lines)))),
                                  sec_line_count =
                                    int (length
                                      (py_slice lines (s - 1) (min e (int (length lines)))))\<rparr>
                       | None \<Rightarrow>
                           Inr \<lparr>sec_file = rel_str (REPO_ROOT E) path,
                                sec_start_line = s,
                                sec_end_line = min (s - 1 + max_lines) (int (length lines)),
                                sec_content =
                                  join newline
                                    (py_slice lines (s - 1)
                                       (min (s - 1 + max_lines) (int (length lines)))),
                                sec_line_count =
                                  int (length
                                    (py_slice lines (s - 1)
                                       (min (s - 1 + max_lines) (int (length lines)))))\<rparr>))))"
proof -
  have p: "(if \<not> is_absolute (Path_of file) then joinpath (REPO_ROOT E) (Path_of file)
            else Path_of file) = joinpath (REPO_ROOT E) (Path_of file)"
    by (cases "Path_of file"; cases "REPO_ROOT E") simp_all
  have m: "(if start_line < 1 then 1 else start_line) = max 1 start_line" by simp
  show ?thesis
    unfolding read_section_def Let_def p m
    by (auto split: option.splits)
qed

text \<open>
  Claim C7, amended. \<open>read_section\<close> fails with \<open>FileNotFound\<close> when the resolved path does not
  exist. On an existing, readable file it fails with the range error \<open>StartBeyondEnd\<close>,
  which carries the start line (after values below 1 were clamped to 1) and the number of
  lines of the file, when that start line exceeds the number of lines; and it fails with a
  range error when the supplied end line is less than the start line (with
  \<open>EndBeforeStart\<close> when the start line lies within the file). Each failure is an
  \<open>Inl\<close> value, so no result is produced.
\<close>

theorem read_section_failures:
  "(\<not> path_exists E (joinpath (REPO_ROOT E) (Path_of file)) \<longrightarrow>
      read_section E file start_line end_line max_lines = Inl (FileNotFound file)) \<and>
   (path_exists E (joinpath (REPO_ROOT E) (Path_of file)) \<and>
    read_lines E (joinpath (REPO_ROOT E) (Path_of file)) = Some lines \<and>
    max 1 start_line > int (length lines) \<longrightarrow>
      read_section E file start_line end_line max_lines =
        Inl (StartBeyondEnd (max 1 start_line) (length lines))) \<and>
   (path_exists E (joinpath (REPO_ROOT E) (Path_of file)) \<and>
    read_lines E (joinpath (REPO_ROOT E) (Path_of file)) = Some lines \<and>
    end_line = Some e \<and> e < start_line \<longrightarrow>
      (\<exists>err. read_section E file start_line end_line max_lines = Inl err \<and>
             is_range_error err)) \<and>
   (path_exists E (joinpath (REPO_ROOT E) (Path_of file)) \<and>
    read_lines E (joinpath (REPO_ROOT E) (Path_of file)) = Some lines \<and>
    max 1 start_line \<le> int (length lines) \<and> end_line = Some e \<and> e < start_line \<longrightarrow>
      read_section E file start_line end_line max_lines = Inl EndBeforeStart)"
  by (auto simp: read_section_unfold Let_def)

theorem read_section_failures_witness:
  "\<not> path_exists demo_env (joinpath (REPO_ROOT demo_env) (Path_of ''nofile.md'')) \<and>
   read_section demo_env ''nofile.md'' 3 (Some 2) 3 = Inl (FileNotFound ''nofile.md'') \<and>
   path_exists demo_env (joinpath (REPO_ROOT demo_env) (Path_of ''openai-docs-unified.md'')) \<and>
   read_lines demo_env (joinpath (REPO_ROOT demo_env) (Path_of ''openai-docs-unified.md'')) =
     Some [''## A'', ''t'', ''#'', ''u'', ''## B''] \<and>
   read_section demo_env ''openai-docs-unified.md'' 6 None 3 = Inl (StartBeyondEnd 6 5) \<and>
   read_section demo_env ''openai-docs-unified.md'' 3 (Some 2) 3 = Inl EndBeforeStart"
proof -
  have a: "\<not> path_exists demo_env (joinpath (REPO_ROOT demo_env) (Path_of ''nofile.md''))"
    by code_simp
  have b: "path_exists demo_env
             (joinpath (REPO_ROOT demo_env) (Path_of ''openai-docs-unified.md''))"
    by code_simp
  have c: "read_lines demo_env
             (joinpath (REPO_ROOT demo_env) (Path_of ''openai-docs-unified.md'')) =
           Some [''## A'', ''t'', ''#'', ''u'', ''## B'']"
    by code_simp
  show ?thesis
    using a b c
      read_section_failures [of demo_env "''nofile.md''" 3 "Some 2" 3]
      read_section_failures [of demo_env "''openai-docs-unified.md''" 6 None 3
        "[''## A'', ''t'', ''#'', ''u'', ''## B'']"]
      read_section_failures [of demo_env "''openai-docs-unified.md''" 3 "Some 2" 3
        "[''## A'', ''t'', ''#'', ''u'', ''## B'']" 2]
    by simp
qed

text \<open>
  The claim as stated has the error name the requested start line. On an empty file a
  request for line \<open>-7\<close> is clamped to 1 first, and the error names 1.
\<close>

theorem read_section_failures_counterexample:
  "path_exists empty_env (joinpath (REPO_ROOT empty_env) (Path_of ''openai-docs-unified.md'')) \<and>
   read_lines empty_env (joinpath (REPO_ROOT empty_env) (Path_of ''openai-docs-unified.md'')) =
     Some [] \<and>
   read_section empty_env ''openai-docs-unified.md'' (- 7) None 80 = Inl (StartBeyondEnd 1 0) \<and>
   (1::int) \<noteq> - 7"
  by code_simp

lemma py_slice_empty: "0 \<le> i \<Longrightarrow> j \<le> i \<Longrightarrow> 0 \<le> j \<Longrightarrow> py_slice xs i j = []"
  by (auto simp: py_slice_def slice_bound_def Let_def min_def)

lemma py_slice_range:
  assumes "0 \<le> i" "0 \<le> j" "j \<le> int (length xs)"
  shows "py_slice xs i j = lines_incl xs (i + 1) j"
proof (cases "i \<le> j")
  case True
  then show ?thesis using assms by (simp add: py_slice_lines_incl)
next
  case False
  then have "py_slice xs i j = []" using assms by (simp add: py_slice_empty)
  moreover have "lines_incl xs (i + 1) j = []" using False by (simp add: lines_incl_def)
  ultimately show ?thesis by simp
qed

lemma read_section_ok:
  assumes "path_exists E (joinpath (REPO_ROOT E) (Path_of file))"
    and "read_lines E (joinpath (REPO_ROOT E) (Path_of file)) = Some lines"
    and "1 \<le> start_line" and "start_line \<le> int (length lines)"
    and "case end_line of Some e \<Rightarrow> start_line \<le> e | None \<Rightarrow> 0 \<le> start_line - 1 + max_lines"
  shows "read_section E file start_line end_line max_lines =
     Inr \<lparr>sec_file = rel_str (REPO_ROOT E) (joinpath (REPO_ROOT E) (Path_of file)),
          sec_start_line = start_line,
          sec_end_line = effective_end lines start_line end_line max_lines,
          sec_content =
            join newline
              (lines_incl lines start_line (effective_end lines start_line end_line max_lines)),
          sec_line_count =
            int (length
              (lines_incl lines start_line
                 (effective_end lines start_line end_line max_lines)))\<rparr>"
proof -
  have m: "max 1 start_line = start_line" using assms(3) by simp
  have b: "0 \<le> effective_end lines start_line end_line max_lines"
    "effective_end lines start_line end_line max_lines \<le> int (length lines)"
    using assms(3,4,5) by (auto simp: effective_end_def split: option.splits)
  have sl: "py_slice lines (start_line - 1) (effective_end lines start_line end_line max_lines) =
      lines_incl lines start_line (effective_end lines start_line end_line max_lines)"
    using py_slice_range [of "start_line - 1" "effective_end lines start_line end_line max_lines" lines]
      assms(3) b by simp
  show ?thesis
  proof (cases end_line)
    case None
    then show ?thesis
      using assms(1,2,4) sl by (simp add: read_section_unfold Let_def m effective_end_def)
  next
    case (Some e)
    then show ?thesis
      using assms(1,2,4,5) sl by (simp add: read_section_unfold Let_def m effective_end_def)
  qed
qed

text \<open>
  The line range of the specification. For an existing, readable file and a start line
  within it, \<open>read_section\<close> succeeds when the end line is supplied and is at least the
  start line, and when the end line is omitted and \<open>startLine - 1 + maxLines\<close> is not
  negative. It returns the lines from the start line to the effective end inclusive,
  newline-joined, the effective end as \<open>end_line\<close>, and the number of these lines as
  \<open>line_count\<close>.
\<close>

lemma read_section_window:
  assumes "path_exists E (joinpath (REPO_ROOT E) (Path_of file))"
    and "read_lines E (joinpath (REPO_ROOT E) (Path_of file)) = Some lines"
    and "1 \<le> start_line" and "start_line \<le> int (length lines)"
    and "case end_line of Some e \<Rightarrow> start_line \<le> e | None \<Rightarrow> 0 \<le> start_line - 1 + max_lines"
  shows "read_section E file start_line end_line max_lines =
     Inr \<lparr>sec_file = rel_str (REPO_ROOT E) (joinpath (REPO_ROOT E) (Path_of file)),
          sec_start_line = start_line,
          sec_end_line = effective_end lines start_line end_line max_lines,
          sec_content =
            join newline
              (lines_incl lines start_line (effective_end lines start_line end_line max_lines)),
          sec_line_count =
            int (length
              (lines_incl lines start_line
                 (effective_end lines start_line end_line max_lines)))\<rparr>"
  using assms by (rule read_section_ok)

lemma demo_unified_exists:
  "path_exists demo_env (joinpath (REPO_ROOT demo_env) (Path_of ''openai-docs-unified.md''))"
  by code_simp

lemma demo_unified_is_file:
  "is_file demo_env (joinpath (REPO_ROOT demo_env) (Path_of ''openai-docs-unified.md''))"
  by code_simp

lemma demo_unified_lines:
  "read_lines demo_env (joinpath (REPO_ROOT demo_env) (Path_of ''openai-docs-unified.md'')) =
     Some demo_lines"
  by code_simp

lemma read_section_window_example:
  "path_exists demo_env (joinpath (REPO_ROOT demo_env) (Path_of ''openai-docs-unified.md'')) \<and>
   read_lines demo_env (joinpath (REPO_ROOT demo_env) (Path_of ''openai-docs-unified.md'')) =
     Some demo_lines \<and>
   (1::int) \<le> 2 \<and> 2 \<le> int (length demo_lines) \<and>
   read_section demo_env ''openai-docs-unified.md'' 2 (Some 4) 3 =
     Inr \<lparr>sec_file = ''openai-docs-unified.md'', sec_start_line = 2, sec_end_line = 4,
          sec_content = join newline [''t'', ''#'', ''u''], sec_line_count = 3\<rparr> \<and>
   read_section demo_env ''openai-docs-unified.md'' 4 None 0 =
     Inr \<lparr>sec_file = ''openai-docs-unified.md'', sec_start_line = 4, sec_end_line = 3,
          sec_content = [], sec_line_count = 0\<rparr>"
proof -
  have len: "(2::int) \<le> int (length demo_lines)" "(4::int) \<le> int (length demo_lines)"
    by (simp_all add: demo_lines_def)
  have f: "rel_str (REPO_ROOT demo_env)
      (joinpath (REPO_ROOT demo_env) (Path_of ''openai-docs-unified.md'')) =
      ''openai-docs-unified.md''"
    by code_simp
  have e1: "effective_end demo_lines 2 (Some 4) 3 = 4" by code_simp
  have l1: "lines_incl demo_lines 2 4 = [''t'', ''#'', ''u'']" by code_simp
  have e2: "effective_end demo_lines 4 None 0 = 3" by code_simp
  have l2: "lines_incl demo_lines 4 3 = []" by code_simp
  have a: "read_section demo_env ''openai-docs-unified.md'' 2 (Some 4) 3 =
     Inr \<lparr>sec_file = ''openai-docs-unified.md'', sec_start_line = 2, sec_end_line = 4,
          sec_content = join newline [''t'', ''#'', ''u''], sec_line_count = 3\<rparr>"
    using read_section_window [where end_line = "Some 4" and max_lines = 3,
        OF demo_unified_exists demo_unified_lines _ len(1)]
    by (simp add: f e1 l1)
  have b: "read_section demo_env ''openai-docs-unified.md'' 4 None 0 =
     Inr \<lparr>sec_file = ''openai-docs-unified.md'', sec_start_line = 4, sec_end_line = 3,
          sec_content = [], sec_line_count = 0\<rparr>"
    using read_section_window [where end_line = None and max_lines = 0,
        OF demo_unified_exists demo_unified_lines _ len(2)]
    by (simp add: f e2 l2)
  show ?thesis using a b demo_unified_exists demo_unified_lines len by simp
qed

text \<open>
  Claim C2. The code does not meet the claim when the end line is omitted and
  \<open>startLine - 1 + maxLines\<close> is negative: the negative end index makes the slice count
  from the end of the file. On the five-line file, start line 1 and \<open>maxLines = -1\<close>
  return the first four lines with \<open>end_line = -1\<close> and \<open>line_count = 4\<close>, where the
  claimed range from line 1 to line \<open>min(1 - 1 + (-1), 5) = -1\<close> is empty.
\<close>

theorem read_section_negative_window:
  "read_section demo_env ''openai-docs-unified.md'' 1 None (- 1) =
     Inr \<lparr>sec_file = ''openai-docs-unified.md'', sec_start_line = 1, sec_end_line = - 1,
          sec_content = join newline [''## A'', ''t'', ''#'', ''u''], sec_line_count = 4\<rparr> \<and>
   effective_end demo_lines 1 None (- 1) = - 1 \<and>
   lines_incl demo_lines 1 (effective_end demo_lines 1 None (- 1)) = []"
  by code_simp


section \<open>Headings and the two loops of the header extractor\<close>

lemma hash_count_of_eq: "hash_count_of s = int (length (takeWhile (\<lambda>c. c = CHR ''#'') s))"
proof -
  have "length (takeWhile (\<lambda>c. c = CHR ''#'') s) + length (dropWhile (\<lambda>c. c = CHR ''#'') s) = length s"
    by (metis length_append takeWhile_dropWhile_id)
  then show ?thesis by (simp add: hash_count_of_def lstrip_chars_def)
qed

lemma startswith_hash: "startswith s ''#'' \<longleftrightarrow> 1 \<le> length (takeWhile (\<lambda>c. c = CHR ''#'') s)"
  by (cases s) (auto simp: startswith_def)

lemma slice_from_hashes:
  "py_slice_from s (int (length (takeWhile P s))) = dropWhile P s"
  by (simp add: py_slice_from_def slice_bound_def min_def dropWhile_eq_drop length_takeWhile_le)

lemma ends_section_iff:
  "ends_section L line \<longleftrightarrow> 1 \<le> heading_level line \<and> int (heading_level line) \<le> L"
  by (simp add: ends_section_def Let_def startswith_hash hash_count_of_eq heading_level_def)

lemma ends_section_upto: "ends_section (int L) line \<longleftrightarrow> hash_line_upto L line"
  by (simp add: ends_section_iff hash_line_upto_def)

lemma header_at_iff:
  "header_at t hl line = Some L \<longleftrightarrow>
     1 \<le> heading_level line \<and> L = int (heading_level line) \<and>
     lstrip (text_after_hashes line) \<noteq> [] \<and>
     (case hl of Some l \<Rightarrow> int (heading_level line) = l | None \<Rightarrow> True) \<and>
     lower (lstrip (text_after_hashes line)) = t"
  unfolding header_at_def Let_def startswith_hash hash_count_of_eq slice_from_hashes
    heading_level_def text_after_hashes_def
  by (auto split: option.splits)

lemma header_at_matches:
  "header_at (lower (strip header)) hl line = Some L \<longleftrightarrow>
     heading_matches header hl line \<and> L = int (heading_level line)"
  by (auto simp: header_at_iff heading_matches_def)

lemma header_at_no_match:
  "header_at (lower (strip header)) hl line = None \<longleftrightarrow> \<not> heading_matches header hl line"
  using header_at_matches [of header hl line] by (cases "header_at (lower (strip header)) hl line") auto

lemma find_header_Some:
  "find_header t hl k lines = Some (i, L) \<Longrightarrow>
     k \<le> i \<and> i - k < length lines \<and> header_at t hl (lines ! (i - k)) = Some L \<and>
     (\<forall>j < i - k. header_at t hl (lines ! j) = None)"
proof (induction lines arbitrary: k)
  case Nil
  then show ?case by simp
next
  case (Cons line rest)
  show ?case
  proof (cases "header_at t hl line")
    case (Some hc)
    with Cons.prems show ?thesis by simp
  next
    case None
    with Cons.prems have "find_header t hl (Suc k) rest = Some (i, L)" by simp
    from Cons.IH [OF this] have ih: "Suc k \<le> i" "i - Suc k < length rest"
      "header_at t hl (rest ! (i - Suc k)) = Some L"
      "\<forall>j < i - Suc k. header_at t hl (rest ! j) = None" by auto
    have ik: "i - k = Suc (i - Suc k)" using ih(1) by simp
    have "\<forall>j < i - k. header_at t hl ((line # rest) ! j) = None"
    proof (intro allI impI)
      fix j assume "j < i - k"
      then show "header_at t hl ((line # rest) ! j) = None"
        using None ih(4) ik by (cases j) auto
    qed
    then show ?thesis using ih ik by simp
  qed
qed

lemma find_header_None:
  "find_header t hl k lines = None \<longleftrightarrow> (\<forall>j < length lines. header_at t hl (lines ! j) = None)"
proof (induction lines arbitrary: k)
  case Nil
  then show ?case by simp
next
  case (Cons line rest)
  show ?case
  proof (cases "header_at t hl line")
    case (Some hc)
    then show ?thesis by auto
  next
    case None
    have "(\<forall>j < length (line # rest). header_at t hl ((line # rest) ! j) = None) \<longleftrightarrow>
          (\<forall>j < length rest. header_at t hl (rest ! j) = None)"
      using None by (auto simp: All_less_Suc2 less_Suc_eq_0_disj)
    then show ?thesis using None Cons.IH [of "Suc k"] by simp
  qed
qed

lemma find_end_None:
  "find_end L lines js = None \<longleftrightarrow> (\<forall>j \<in> set js. \<not> ends_section L (lines ! j))"
  by (induction js) auto

lemma find_end_Some:
  "find_end L lines js = Some j \<Longrightarrow>
     \<exists>k < length js. js ! k = j \<and> ends_section L (lines ! j) \<and>
       (\<forall>k' < k. \<not> ends_section L (lines ! (js ! k')))"
proof (induction js)
  case Nil
  then show ?case by simp
next
  case (Cons a js)
  show ?case
  proof (cases "ends_section L (lines ! a)")
    case True
    with Cons.prems have "a = j" by simp
    with True show ?thesis by (intro exI [of _ 0]) simp
  next
    case False
    with Cons.prems have "find_end L lines js = Some j" by simp
    from Cons.IH [OF this] obtain k where k: "k < length js" "js ! k = j"
      "ends_section L (lines ! j)" "\<forall>k' < k. \<not> ends_section L (lines ! (js ! k'))" by blast
    have "\<forall>k' < Suc k. \<not> ends_section L (lines ! ((a # js) ! k'))"
    proof (intro allI impI)
      fix k' assume "k' < Suc k"
      then show "\<not> ends_section L (lines ! ((a # js) ! k'))"
        using False k(4) by (cases k') auto
    qed
    with k show ?thesis by (intro exI [of _ "Suc k"]) simp
  qed
qed

lemma find_end_upt:
  assumes "find_end L lines [a..<b] = Some j"
  shows "a \<le> j \<and> j < b \<and> ends_section L (lines ! j) \<and>
         (\<forall>x. a \<le> x \<and> x < j \<longrightarrow> \<not> ends_section L (lines ! x))"
proof -
  from find_end_Some [OF assms] obtain k where k: "k < b - a" "[a..<b] ! k = j"
    "ends_section L (lines ! j)" "\<forall>k' < k. \<not> ends_section L (lines ! ([a..<b] ! k'))"
    by auto
  have j: "j = a + k" using k(1,2) by simp
  have "\<not> ends_section L (lines ! x)" if "a \<le> x" "x < j" for x
  proof -
    have "x - a < k" using that j by simp
    moreover have "[a..<b] ! (x - a) = x" using that j k(1) by simp
    ultimately show ?thesis using k(4) by metis
  qed
  then show ?thesis using j k by simp
qed

lemma section_of_lines_None:
  "section_of_lines rel header hl ml lines = None \<longleftrightarrow>
     (\<forall>j < length lines. \<not> heading_matches header hl (lines ! j))"
proof -
  have "section_of_lines rel header hl ml lines = None \<longleftrightarrow>
        find_header (lower (strip header)) hl 0 lines = None"
    by (auto simp: section_of_lines_def Let_def split: option.splits)
  then show ?thesis by (simp add: find_header_None header_at_no_match)
qed

lemma section_of_lines_start:
  assumes "section_of_lines rel header hl ml lines = Some r"
  shows "\<exists>i < length lines. sec_start_line r = int i + 1 \<and>
           heading_matches header hl (lines ! i) \<and>
           (\<forall>j < i. \<not> heading_matches header hl (lines ! j))"
proof -
  let ?t = "lower (strip header)"
  from assms obtain i L where fh: "find_header ?t hl 0 lines = Some (i, L)"
    by (auto simp: section_of_lines_def Let_def split: option.splits)
  from find_header_Some [OF fh] have i: "i < length lines"
    and hi: "header_at ?t hl (lines ! i) = Some L"
    and before: "\<forall>j < i. header_at ?t hl (lines ! j) = None" by auto
  have "sec_start_line r = int i + 1"
    using assms unfolding section_of_lines_def Let_def fh option.case prod.case by auto
  moreover have "heading_matches header hl (lines ! i)" using hi by (simp add: header_at_matches)
  moreover have "\<forall>j < i. \<not> heading_matches header hl (lines ! j)"
    using before by (simp add: header_at_no_match)
  ultimately show ?thesis using i by blast
qed

lemma section_of_lines_Some:
  assumes "section_of_lines rel header hl ml lines = Some r"
    and "case ml of Some m \<Rightarrow> 0 \<le> m | None \<Rightarrow> True"
  shows "\<exists>i e. i < e \<and> e \<le> length lines \<and>
      heading_matches header hl (lines ! i) \<and>
      (\<forall>j < i. \<not> heading_matches header hl (lines ! j)) \<and>
      (\<forall>j. i < j \<and> j < e \<longrightarrow> \<not> ends_section (int (heading_level (lines ! i))) (lines ! j)) \<and>
      (e < length lines \<longrightarrow> ends_section (int (heading_level (lines ! i))) (lines ! e)) \<and>
      r = \<lparr>sec_file = rel, sec_start_line = int i + 1,
           sec_end_line = truncated_end ml i e,
           sec_content = join newline (lines_incl lines (int i + 1) (truncated_end ml i e)),
           sec_line_count = truncated_end ml i e - int i\<rparr>"
proof -
  let ?t = "lower (strip header)"
  from assms(1) obtain i L where fh: "find_header ?t hl 0 lines = Some (i, L)"
    by (auto simp: section_of_lines_def Let_def split: option.splits)
  from find_header_Some [OF fh] have i: "i < length lines"
    and hi: "header_at ?t hl (lines ! i) = Some L"
    and before: "\<forall>j < i. header_at ?t hl (lines ! j) = None" by auto
  from hi have m: "heading_matches header hl (lines ! i)" and L: "L = int (heading_level (lines ! i))"
    by (auto simp: header_at_matches)
  from before have nb: "\<forall>j < i. \<not> heading_matches header hl (lines ! j)"
    by (simp add: header_at_no_match)
  define e where "e = (case find_end L lines [i + 1 ..< length lines] of Some j \<Rightarrow> j | None \<Rightarrow> length lines)"
  have e: "i < e \<and> e \<le> length lines \<and>
      (\<forall>j. i < j \<and> j < e \<longrightarrow> \<not> ends_section L (lines ! j)) \<and>
      (e < length lines \<longrightarrow> ends_section L (lines ! e))"
  proof (cases "find_end L lines [i + 1 ..< length lines]")
    case None
    then have "e = length lines" by (simp add: e_def)
    moreover from None have "\<forall>j. i < j \<and> j < length lines \<longrightarrow> \<not> ends_section L (lines ! j)"
      by (auto simp: find_end_None)
    ultimately show ?thesis using i by simp
  next
    case (Some j)
    then have "e = j" by (simp add: e_def)
    with find_end_upt [OF Some] show ?thesis by auto
  qed
  have te: "(case ml of Some m \<Rightarrow> if int e - int i > m then int i + m else int e | None \<Rightarrow> int e)
      = truncated_end ml i e"
    by (auto simp: truncated_end_def split: option.splits)
  have bnd: "0 \<le> truncated_end ml i e" "truncated_end ml i e \<le> int (length lines)"
    using assms(2) e by (auto simp: truncated_end_def split: option.splits)
  have sl: "py_slice lines (int i) (truncated_end ml i e) =
      lines_incl lines (int i + 1) (truncated_end ml i e)"
    using py_slice_range [of "int i" "truncated_end ml i e" lines] bnd by simp
  have ee: "(case find_end L lines [i + 1 ..< length lines] of Some j \<Rightarrow> int j | None \<Rightarrow> int (length lines)) = int e"
    by (simp add: e_def split: option.splits)
  have "r = \<lparr>sec_file = rel, sec_start_line = int i + 1,
           sec_end_line = truncated_end ml i e,
           sec_content = join newline (lines_incl lines (int i + 1) (truncated_end ml i e)),
           sec_line_count = truncated_end ml i e - int i\<rparr>"
    using assms(1) unfolding section_of_lines_def Let_def fh option.case prod.case ee te sl
    by simp
  with e m nb L i show ?thesis by blast
qed

lemma extract_Some:
  assumes "extract_section_by_header_from_file E rel header hl ml = Inr (Some r)"
  shows "\<exists>lines. is_file E (joinpath (REPO_ROOT E) (Path_of rel)) \<and>
           read_lines E (joinpath (REPO_ROOT E) (Path_of rel)) = Some lines \<and>
           section_of_lines rel header hl ml lines = Some r"
  using assms
  by (auto simp: extract_section_by_header_from_file_def Let_def split: if_splits option.splits)

lemma extract_readable:
  assumes "is_file E (joinpath (REPO_ROOT E) (Path_of rel))"
    and "read_lines E (joinpath (REPO_ROOT E) (Path_of rel)) = Some lines"
  shows "extract_section_by_header_from_file E rel header hl ml =
           Inr (section_of_lines rel header hl ml lines)"
  using assms by (simp add: extract_section_by_header_from_file_def Let_def)

text \<open>
  The first loop of the extractor. A line matches the requested header if and only if it
  is a heading line whose visible text, with the white space between the \<open>#\<close>
  characters and the text removed but trailing white space kept, equals the requested
  header, trimmed on both sides, case-insensitively, and, when a header level is given,
  whose count of leading \<open>#\<close> characters equals that level exactly. The extractor takes
  the first matching line in top-to-bottom order, at any level when no level is given,
  and finds nothing exactly when no line matches.
\<close>

lemma header_match_first:
  assumes "is_file E (joinpath (REPO_ROOT E) (Path_of rel))"
    and "read_lines E (joinpath (REPO_ROOT E) (Path_of rel)) = Some lines"
  shows "(extract_section_by_header_from_file E rel header hl ml = Inr None \<longleftrightarrow>
            (\<forall>j < length lines. \<not> heading_matches header hl (lines ! j))) \<and>
         (\<forall>r. extract_section_by_header_from_file E rel header hl ml = Inr (Some r) \<longrightarrow>
            (\<exists>i < length lines. sec_start_line r = int i + 1 \<and>
               heading_matches header hl (lines ! i) \<and>
               (\<forall>j < i. \<not> heading_matches header hl (lines ! j)))) \<and>
         (\<exists>res. extract_section_by_header_from_file E rel header hl ml = Inr res)"
  using section_of_lines_start [of rel header hl ml lines]
  by (simp add: extract_readable [OF assms] section_of_lines_None)

lemma header_match_first_example:
  "is_file demo_env (joinpath (REPO_ROOT demo_env) (Path_of ''openai-docs-unified.md'')) \<and>
   read_lines demo_env (joinpath (REPO_ROOT demo_env) (Path_of ''openai-docs-unified.md'')) =
     Some demo_lines \<and>
   extract_section_by_header_from_file demo_env ''openai-docs-unified.md'' '' b '' (Some 2)
     (Some 200) =
     Inr (Some \<lparr>sec_file = ''openai-docs-unified.md'', sec_start_line = 5, sec_end_line = 5,
                sec_content = ''## B'', sec_line_count = 1\<rparr>) \<and>
   (\<exists>i < length demo_lines. (5::int) = int i + 1 \<and>
      heading_matches '' b '' (Some 2) (demo_lines ! i) \<and>
      (\<forall>j < i. \<not> heading_matches '' b '' (Some 2) (demo_lines ! j)))"
proof -
  have r: "extract_section_by_header_from_file demo_env ''openai-docs-unified.md'' '' b ''
      (Some 2) (Some 200) =
     Inr (Some \<lparr>sec_file = ''openai-docs-unified.md'', sec_start_line = 5, sec_end_line = 5,
                sec_content = ''## B'', sec_line_count = 1\<rparr>)"
    by code_simp
  show ?thesis
    using header_match_first [where header = "'' b ''" and hl = "Some 2" and ml = "Some 200",
        OF demo_unified_is_file demo_unified_lines] r demo_unified_is_file demo_unified_lines
    by simp
qed

text \<open>
  Claim C4. The code does not meet the claim on a heading with trailing white space: the
  requested header is stripped on both sides, the heading's text only on the left. The
  line \<open>## Intro\<close> followed by a space matches the header \<open>Intro\<close> once both are trimmed,
  yet the extractor finds no section in the file.
\<close>

theorem header_trailing_space_unmatched:
  "heading_matches_trimmed ''Intro'' None ''## Intro '' \<and>
   read_lines demo_env (joinpath (REPO_ROOT demo_env) (Path_of ''openai-docs-guides/a.md'')) =
     Some [''## Intro '', ''x''] \<and>
   extract_section_by_header_from_file demo_env ''openai-docs-guides/a.md'' ''Intro'' None
     (Some 200) = Inr None"
  by code_simp

text \<open>
  The extent of the section that the extractor returns. With \<open>maxLines\<close> absent or not
  negative, the section runs from the matched heading line at level \<open>L\<close> up to, but
  excluding, the next line that after left-trimming begins with between one and \<open>L\<close>
  characters \<open>#\<close> (whether or not any text follows them), or to the end of the file if
  there is no such line; lines with more than \<open>L\<close> leading \<open>#\<close> characters stay in the
  section. The section is cut to at most \<open>maxLines\<close> lines counted from the heading line.
\<close>

lemma header_section_extent:
  assumes "extract_section_by_header_from_file E rel header hl ml = Inr (Some r)"
    and "case ml of Some m \<Rightarrow> 0 \<le> m | None \<Rightarrow> True"
  shows "\<exists>lines i e.
      read_lines E (joinpath (REPO_ROOT E) (Path_of rel)) = Some lines \<and>
      i < e \<and> e \<le> length lines \<and>
      heading_matches header hl (lines ! i) \<and>
      (\<forall>j < i. \<not> heading_matches header hl (lines ! j)) \<and>
      (\<forall>j. i < j \<and> j < e \<longrightarrow> \<not> hash_line_upto (heading_level (lines ! i)) (lines ! j)) \<and>
      (e < length lines \<longrightarrow> hash_line_upto (heading_level (lines ! i)) (lines ! e)) \<and>
      sec_start_line r = int i + 1 \<and>
      sec_end_line r = truncated_end ml i e \<and>
      sec_content r = join newline (lines_incl lines (int i + 1) (truncated_end ml i e)) \<and>
      sec_line_count r = int (length (lines_incl lines (int i + 1) (truncated_end ml i e)))"
proof -
  from extract_Some [OF assms(1)] obtain lines where
    rl: "read_lines E (joinpath (REPO_ROOT E) (Path_of rel)) = Some lines" and
    sl: "section_of_lines rel header hl ml lines = Some r" by blast
  from section_of_lines_Some [OF sl assms(2)] obtain i e where
    ie: "i < e" "e \<le> length lines" and
    m: "heading_matches header hl (lines ! i)" "\<forall>j < i. \<not> heading_matches header hl (lines ! j)" and
    ex: "\<forall>j. i < j \<and> j < e \<longrightarrow> \<not> ends_section (int (heading_level (lines ! i))) (lines ! j)"
      "e < length lines \<longrightarrow> ends_section (int (heading_level (lines ! i))) (lines ! e)" and
    r: "r = \<lparr>sec_file = rel, sec_start_line = int i + 1,
           sec_end_line = truncated_end ml i e,
           sec_content = join newline (lines_incl lines (int i + 1) (truncated_end ml i e)),
           sec_line_count = truncated_end ml i e - int i\<rparr>" by blast
  have "int i \<le> truncated_end ml i e"
    using assms(2) ie by (auto simp: truncated_end_def split: option.splits)
  then have lc: "sec_line_count r = int (length (lines_incl lines (int i + 1) (truncated_end ml i e)))"
    by (simp add: r length_lines_incl)
  show ?thesis
    using rl ie m ex lc unfolding ends_section_upto
    by (intro exI [of _ lines] exI [of _ i] exI [of _ e]) (simp add: r)
qed

lemma header_section_extent_example:
  "extract_section_by_header_from_file demo_env ''openai-docs-unified.md'' ''a'' (Some 2)
     (Some 1) =
     Inr (Some \<lparr>sec_file = ''openai-docs-unified.md'', sec_start_line = 1, sec_end_line = 1,
                sec_content = ''## A'', sec_line_count = 1\<rparr>) \<and>
   (0::int) \<le> 1 \<and>
   (\<exists>i e. i < e \<and> e \<le> length demo_lines \<and>
      heading_matches ''a'' (Some 2) (demo_lines ! i) \<and>
      (\<forall>j < i. \<not> heading_matches ''a'' (Some 2) (demo_lines ! j)) \<and>
      (\<forall>j. i < j \<and> j < e \<longrightarrow>
         \<not> hash_line_upto (heading_level (demo_lines ! i)) (demo_lines ! j)) \<and>
      (e < length demo_lines \<longrightarrow>
         hash_line_upto (heading_level (demo_lines ! i)) (demo_lines ! e)) \<and>
      (1::int) = int i + 1 \<and>
      (1::int) = truncated_end (Some 1) i e \<and>
      ''## A'' = join newline (lines_incl demo_lines (int i + 1) (truncated_end (Some 1) i e)) \<and>
      (1::int) = int (length (lines_incl demo_lines (int i + 1) (truncated_end (Some 1) i e))))"
proof -
  have r: "extract_section_by_header_from_file demo_env ''openai-docs-unified.md'' ''a''
      (Some 2) (Some 1) =
     Inr (Some \<lparr>sec_file = ''openai-docs-unified.md'', sec_start_line = 1, sec_end_line = 1,
                sec_content = ''## A'', sec_line_count = 1\<rparr>)"
    by code_simp
  have m: "case Some (1::int) of Some m \<Rightarrow> 0 \<le> m | None \<Rightarrow> True" by simp
  show ?thesis
    using header_section_extent [OF r m] r by (simp add: demo_unified_lines)
qed

text \<open>
  Claim C3. The code does not meet the claim in two places. The second loop tests only
  that the left-trimmed line begins with \<open>#\<close> and counts the \<open>#\<close> characters, without
  the test for visible text that the first loop makes: in the five-line file the section
  of \<open>## A\<close> ends at the bare \<open>#\<close> of line 3, which is no heading line, where the next
  heading line of level at most 2 is line 5. And \<open>maxLines\<close> is not validated: with
  \<open>maxLines = -1\<close> the slice counts from the end of the file, and four lines are returned
  with \<open>line_count = -1\<close>.
\<close>

theorem header_section_bare_hash:
  "extract_section_by_header_from_file demo_env ''openai-docs-unified.md'' ''A'' None (Some 200) =
     Inr (Some \<lparr>sec_file = ''openai-docs-unified.md'', sec_start_line = 1, sec_end_line = 2,
                sec_content = join newline [''## A'', ''t''], sec_line_count = 2\<rparr>) \<and>
   spec_section_end demo_lines 0 = 4 \<and>
   extract_section_by_header_from_file demo_env ''openai-docs-unified.md'' ''A'' None
     (Some (- 1)) =
     Inr (Some \<lparr>sec_file = ''openai-docs-unified.md'', sec_start_line = 1, sec_end_line = - 1,
                sec_content = join newline [''## A'', ''t'', ''#'', ''u''],
                sec_line_count = - 1\<rparr>)"
  by code_simp


section \<open>The invariant of returned slices\<close>

lemma read_section_slice_of:
  assumes "read_section E file start_line end_line max_lines = Inr r" and "1 \<le> max_lines"
  shows "\<exists>lines. read_lines E (joinpath (REPO_ROOT E) (Path_of file)) = Some lines \<and> slice_of lines r"
proof -
  let ?p = "joinpath (REPO_ROOT E) (Path_of file)"
  from assms(1) obtain lines where rl: "read_lines E ?p = Some lines" and ex: "path_exists E ?p"
    by (auto simp: read_section_unfold Let_def split: if_splits option.splits)
  let ?s = "max 1 start_line"
  from assms(1) rl ex have s: "?s \<le> int (length lines)"
    by (auto simp: read_section_unfold Let_def split: if_splits option.splits)
  have e: "case end_line of Some e \<Rightarrow> ?s \<le> e | None \<Rightarrow> 0 \<le> ?s - 1 + max_lines"
    using assms rl ex s by (auto simp: read_section_unfold Let_def split: if_splits option.splits)
  have mm: "max 1 (max 1 start_line) = max 1 start_line" by simp
  have same: "read_section E file ?s end_line max_lines = read_section E file start_line end_line max_lines"
    unfolding read_section_unfold mm by (rule refl)
  let ?b = "effective_end lines ?s end_line max_lines"
  have r: "r = \<lparr>sec_file = rel_str (REPO_ROOT E) ?p, sec_start_line = ?s, sec_end_line = ?b,
          sec_content = join newline (lines_incl lines ?s ?b),
          sec_line_count = int (length (lines_incl lines ?s ?b))\<rparr>"
    using read_section_ok [OF ex rl _ s e] same assms(1) by simp
  have b: "?s \<le> ?b" "?b \<le> int (length lines)"
    using s e assms(2) by (auto simp: effective_end_def split: option.splits)
  have "slice_of lines r"
    unfolding slice_of_def using b by (simp add: r length_lines_incl)
  with rl show ?thesis by blast
qed

lemma extract_slice_of:
  assumes "extract_section_by_header_from_file E rel header hl ml = Inr (Some r)"
    and "case ml of Some m \<Rightarrow> 1 \<le> m | None \<Rightarrow> True"
  shows "\<exists>lines. read_lines E (joinpath (REPO_ROOT E) (Path_of rel)) = Some lines \<and> slice_of lines r"
proof -
  from extract_Some [OF assms(1)] obtain lines where
    rl: "read_lines E (joinpath (REPO_ROOT E) (Path_of rel)) = Some lines" and
    sl: "section_of_lines rel header hl ml lines = Some r" by blast
  have ml0: "case ml of Some m \<Rightarrow> 0 \<le> m | None \<Rightarrow> True"
    using assms(2) by (auto split: option.splits)
  from section_of_lines_Some [OF sl ml0] obtain i e where
    ie: "i < e" "e \<le> length lines" and
    r: "r = \<lparr>sec_file = rel, sec_start_line = int i + 1,
           sec_end_line = truncated_end ml i e,
           sec_content = join newline (lines_incl lines (int i + 1) (truncated_end ml i e)),
           sec_line_count = truncated_end ml i e - int i\<rparr>" by blast
  have b: "int i + 1 \<le> truncated_end ml i e" "truncated_end ml i e \<le> int (length lines)"
    using assms(2) ie by (auto simp: truncated_end_def split: option.splits)
  have "slice_of lines r"
    unfolding slice_of_def using b by (simp add: r length_lines_incl)
  with rl show ?thesis by blast
qed

text \<open>
  Claim C10. Every slice that \<open>read_section\<close> returns under \<open>maxLines \<ge> 1\<close>, and every
  slice that the header extractor returns under \<open>maxLines \<ge> 1\<close> (or with no cap at all),
  is a well-formed slice of the file's lines: \<open>line_count = end_line - start_line + 1 \<ge> 1\<close>,
  the content is exactly the \<open>line_count\<close> lines from \<open>start_line\<close> to \<open>end_line\<close>,
  newline-joined, and \<open>1 \<le> start_line \<le> end_line\<close>.
\<close>

theorem section_slice_invariant:
  "(read_section E file start_line end_line max_lines = Inr r \<and> 1 \<le> max_lines \<longrightarrow>
      (\<exists>lines. read_lines E (joinpath (REPO_ROOT E) (Path_of file)) = Some lines \<and>
         slice_of lines r)) \<and>
   (extract_section_by_header_from_file E rel header hl ml = Inr (Some r') \<and>
    (case ml of Some m \<Rightarrow> 1 \<le> m | None \<Rightarrow> True) \<longrightarrow>
      (\<exists>lines. read_lines E (joinpath (REPO_ROOT E) (Path_of rel)) = Some lines \<and>
         slice_of lines r'))"
  using read_section_slice_of extract_slice_of by blast

theorem section_slice_invariant_witness:
  "read_section demo_env ''openai-docs-unified.md'' 2 None 3 =
     Inr \<lparr>sec_file = ''openai-docs-unified.md'', sec_start_line = 2, sec_end_line = 4,
          sec_content = join newline [''t'', ''#'', ''u''], sec_line_count = 3\<rparr> \<and>
   (1::int) \<le> 3 \<and>
   slice_of demo_lines
     \<lparr>sec_file = ''openai-docs-unified.md'', sec_start_line = 2, sec_end_line = 4,
      sec_content = join newline [''t'', ''#'', ''u''], sec_line_count = 3\<rparr> \<and>
   extract_section_by_header_from_file demo_env ''openai-docs-unified.md'' ''a'' None (Some 200) =
     Inr (Some \<lparr>sec_file = ''openai-docs-unified.md'', sec_start_line = 1, sec_end_line = 2,
                sec_content = join newline [''## A'', ''t''], sec_line_count = 2\<rparr>) \<and>
   (1::int) \<le> 200 \<and>
   slice_of demo_lines
     \<lparr>sec_file = ''openai-docs-unified.md'', sec_start_line = 1, sec_end_line = 2,
      sec_content = join newline [''## A'', ''t''], sec_line_count = 2\<rparr>"
proof -
  have a: "read_section demo_env ''openai-docs-unified.md'' 2 None 3 =
     Inr \<lparr>sec_file = ''openai-docs-unified.md'', sec_start_line = 2, sec_end_line = 4,
          sec_content = join newline [''t'', ''#'', ''u''], sec_line_count = 3\<rparr>"
    by code_simp
  have b: "extract_section_by_header_from_file demo_env ''openai-docs-unified.md'' ''a'' None
      (Some 200) =
     Inr (Some \<lparr>sec_file = ''openai-docs-unified.md'', sec_start_line = 1, sec_end_line = 2,
                sec_content = join newline [''## A'', ''t''], sec_line_count = 2\<rparr>)"
    by code_simp
  show ?thesis
    using a b
      section_slice_invariant [of demo_env "''openai-docs-unified.md''" 2 None 3 _
        "''openai-docs-unified.md''" "''a''" None "Some 200"]
    by (simp add: demo_unified_lines)
qed


section \<open>Search\<close>

lemma py_in_iff: "py_in q s \<longleftrightarrow> (\<exists>a b. s = a @ q @ b)"
proof (induction s)
  case Nil
  then show ?case by auto
next
  case (Cons c cs)
  have "(\<exists>a b. c # cs = a @ q @ b) \<longleftrightarrow> prefix q (c # cs) \<or> (\<exists>a b. cs = a @ q @ b)"
  proof
    assume "\<exists>a b. c # cs = a @ q @ b"
    then obtain a b where ab: "c # cs = a @ q @ b" by blast
    show "prefix q (c # cs) \<or> (\<exists>a b. cs = a @ q @ b)"
    proof (cases a)
      case Nil
      with ab show ?thesis by (auto simp: prefix_def)
    next
      case (Cons x a')
      with ab have "cs = a' @ q @ b" by simp
      then show ?thesis by blast
    qed
  next
    assume "prefix q (c # cs) \<or> (\<exists>a b. cs = a @ q @ b)"
    then show "\<exists>a b. c # cs = a @ q @ b"
    proof
      assume "prefix q (c # cs)"
      then obtain b where "c # cs = q @ b" by (auto simp: prefix_def)
      then have "c # cs = [] @ q @ b" by simp
      then show ?thesis by blast
    next
      assume "\<exists>a b. cs = a @ q @ b"
      then obtain a b where "cs = a @ q @ b" by blast
      then have "c # cs = (c # a) @ q @ b" by simp
      then show ?thesis by blast
    qed
  qed
  with Cons show ?case by simp
qed

lemma file_hits_member:
  "h \<in> set (file_hits rel q lines) \<longleftrightarrow>
     (\<exists>i < length lines. py_in (lower q) (lower (lines ! i)) \<and>
        h = \<lparr>hit_file = rel, hit_line = int i + 1, hit_snippet = strip (lines ! i)\<rparr>)"
  unfolding file_hits_def
  by (auto simp: in_set_enumerate_eq image_iff)

lemma file_hits_sorted: "sorted_wrt (<) (map hit_line (file_hits rel q lines))"
proof -
  have "sorted_wrt (<) (map fst (enumerate 0 lines))" by simp
  then have "sorted_wrt (\<lambda>x y. fst x < fst y) (enumerate 0 lines)"
    by (simp only: sorted_wrt_map)
  then have "sorted_wrt (\<lambda>x y. fst x < fst y)
      (filter (\<lambda>(i, line). py_in (lower q) (lower line)) (enumerate 0 lines))"
    by (rule sorted_wrt_filter)
  then have "sorted_wrt (\<lambda>x y. int (fst x) + 1 < int (fst y) + 1)
      (filter (\<lambda>(i, line). py_in (lower q) (lower line)) (enumerate 0 lines))"
    by (rule sorted_wrt_mono_rel [rotated]) simp
  then show ?thesis
    unfolding file_hits_def
    by (simp add: sorted_wrt_map case_prod_beta comp_def)
qed

lemma search_in_file_hits_in:
  "search_in_file E f q = Inr hits \<Longrightarrow> hits = hits_in E q f"
  by (auto simp: search_in_file_def hits_in_def split: option.splits)

lemma search_files_take:
  assumes "search_files E q lmt fs acc = Inr res"
  shows "take (nat lmt) res = take (nat lmt) (acc @ concat (map (hits_in E q) fs))"
  using assms
proof (induction fs arbitrary: acc)
  case Nil
  then show ?case by simp
next
  case (Cons f fs)
  from Cons.prems obtain hits where sf: "search_in_file E f q = Inr hits"
    by (cases "search_in_file E f q") auto
  then have hits: "hits = hits_in E q f" by (rule search_in_file_hits_in)
  show ?case
  proof (cases "int (length (acc @ hits)) \<ge> lmt")
    case True
    with Cons.prems sf have "res = acc @ hits" by (simp add: Let_def)
    moreover from True have "nat lmt \<le> length (acc @ hits)" by linarith
    ultimately show ?thesis using hits by simp
  next
    case False
    with Cons.prems sf have "search_files E q lmt fs (acc @ hits) = Inr res"
      by (simp add: Let_def)
    from Cons.IH [OF this] show ?thesis using hits by simp
  qed
qed

lemma search_scope_Inr:
  assumes "search_scope E scope query limit = Inr hits" and "strip query \<noteq> []"
  shows "\<exists>roots. map_of (SCOPE_PATHS (REPO_ROOT E)) scope = Some roots \<and>
           hits = take (effective_limit limit)
             (concat (map (hits_in E query) (concat (map (scope_root_files E) roots))))"
proof -
  have q: "query \<noteq> []" using assms(2) by (auto simp: strip_def rstrip_def lstrip_def)
  let ?lim = "if limit \<le> 0 then 20 else limit"
  from assms(1) q assms(2) obtain files where gf: "get_files_for_scope E scope = Inr files"
    by (cases "get_files_for_scope E scope") (auto simp: search_scope_def Let_def)
  then obtain roots where roots: "map_of (SCOPE_PATHS (REPO_ROOT E)) scope = Some roots"
    and files: "files = concat (map (scope_root_files E) roots)"
    by (auto simp: get_files_for_scope_def split: option.splits)
  from assms(1) q assms(2) gf obtain res where sf: "search_files E query ?lim files [] = Inr res"
    and hits: "hits = py_slice res 0 ?lim"
    by (cases "search_files E query ?lim files []") (auto simp: search_scope_def Let_def)
  have "hits = take (nat ?lim) res" using hits by (simp add: py_slice_take)
  also have "\<dots> = take (nat ?lim) (concat (map (hits_in E query) files))"
    using search_files_take [OF sf] by simp
  finally show ?thesis using roots files by (simp add: effective_limit_def)
qed

lemma search_scope_blank: 
  assumes "search_scope E scope query limit = Inr hits" and "strip query = []"
  shows "hits = []"
  using assms by (simp add: search_scope_def)

text \<open>The search returns whenever every file of the scope can be read.\<close>

lemma search_files_returns:
  assumes "\<forall>f \<in> set fs. read_lines E f \<noteq> None"
  shows "\<exists>res. search_files E q lmt fs acc = Inr res"
  using assms
proof (induction fs arbitrary: acc)
  case Nil
  then show ?case by simp
next
  case (Cons f fs)
  then obtain lines where "read_lines E f = Some lines" by auto
  then have "search_in_file E f q = Inr (file_hits (rel_str (REPO_ROOT E) f) q lines)"
    by (simp add: search_in_file_def)
  with Cons show ?case by (simp add: Let_def)
qed

lemma search_scope_returns:
  assumes "map_of (SCOPE_PATHS (REPO_ROOT E)) scope = Some roots"
    and "\<forall>f \<in> set (concat (map (scope_root_files E) roots)). read_lines E f \<noteq> None"
  shows "\<exists>hits. search_scope E scope query limit = Inr hits"
proof -
  obtain res where
    "search_files E query (if limit \<le> 0 then 20 else limit)
       (concat (map (scope_root_files E) roots)) [] = Inr res"
    using search_files_returns [OF assms(2)] by blast
  then show ?thesis
    using assms(1) by (simp add: search_scope_def get_files_for_scope_def Let_def)
qed

lemma hits_in_member:
  assumes "h \<in> set (hits_in E q f)"
  shows "\<exists>lines. read_lines E f = Some lines \<and> hit_file h = rel_str (REPO_ROOT E) f \<and>
      1 \<le> hit_line h \<and> hit_line h \<le> int (length lines) \<and>
      (\<exists>a b. lower (lines ! nat (hit_line h - 1)) = a @ lower q @ b) \<and>
      hit_snippet h = strip (lines ! nat (hit_line h - 1))"
proof -
  from assms obtain lines where rl: "read_lines E f = Some lines"
    and h: "h \<in> set (file_hits (rel_str (REPO_ROOT E) f) q lines)"
    by (cases "read_lines E f") (auto simp: hits_in_def)
  from h obtain i where i: "i < length lines" "py_in (lower q) (lower (lines ! i))"
    "h = \<lparr>hit_file = rel_str (REPO_ROOT E) f, hit_line = int i + 1,
          hit_snippet = strip (lines ! i)\<rparr>"
    by (auto simp: file_hits_member)
  from i(2) have "\<exists>a b. lower (lines ! i) = a @ lower q @ b" by (simp add: py_in_iff)
  with rl i(1,3) show ?thesis by simp
qed

lemma hits_in_sorted: "sorted_wrt (<) (map hit_line (hits_in E q f))"
  by (simp add: hits_in_def file_hits_sorted split: option.splits)

lemma hits_in_file: "h \<in> set (hits_in E q f) \<Longrightarrow> hit_file h = rel_str (REPO_ROOT E) f"
  using hits_in_member by blast

text \<open>
  Claim C1, amended. Whenever \<open>search_scope\<close> returns, it returns at most \<open>limit\<close> hits
  when \<open>limit\<close> is positive and at most 20 hits otherwise, and for every returned hit the
  line \<open>hit_line\<close> (1-based) of the file of the scope that \<open>hit_file\<close> names contains the
  query as a case-insensitive substring, and \<open>hit_snippet\<close> is that line with the
  surrounding white space trimmed.
\<close>

theorem search_scope_hits:
  assumes "search_scope E scope query limit = Inr hits"
  shows "length hits \<le> effective_limit limit \<and>
    (\<forall>h \<in> set hits. \<exists>files f lines.
        get_files_for_scope E scope = Inr files \<and> f \<in> set files \<and>
        read_lines E f = Some lines \<and> hit_file h = rel_str (REPO_ROOT E) f \<and>
        1 \<le> hit_line h \<and> hit_line h \<le> int (length lines) \<and>
        (\<exists>a b. lower (lines ! nat (hit_line h - 1)) = a @ lower query @ b) \<and>
        hit_snippet h = strip (lines ! nat (hit_line h - 1)))"
proof (cases "strip query = []")
  case True
  with assms have "hits = []" by (rule search_scope_blank)
  then show ?thesis by simp
next
  case False
  from search_scope_Inr [OF assms False] obtain roots where
    roots: "map_of (SCOPE_PATHS (REPO_ROOT E)) scope = Some roots" and
    hits: "hits = take (effective_limit limit)
      (concat (map (hits_in E query) (concat (map (scope_root_files E) roots))))" by blast
  let ?files = "concat (map (scope_root_files E) roots)"
  have gf: "get_files_for_scope E scope = Inr ?files"
    using roots by (simp add: get_files_for_scope_def)
  have len: "length hits \<le> effective_limit limit" using hits by simp
  have "\<exists>files f lines.
        get_files_for_scope E scope = Inr files \<and> f \<in> set files \<and>
        read_lines E f = Some lines \<and> hit_file h = rel_str (REPO_ROOT E) f \<and>
        1 \<le> hit_line h \<and> hit_line h \<le> int (length lines) \<and>
        (\<exists>a b. lower (lines ! nat (hit_line h - 1)) = a @ lower query @ b) \<and>
        hit_snippet h = strip (lines ! nat (hit_line h - 1))" if "h \<in> set hits" for h
  proof -
    from that hits have "h \<in> set (concat (map (hits_in E query) ?files))"
      using set_take_subset by fastforce
    then obtain f where f: "f \<in> set ?files" "h \<in> set (hits_in E query f)" by auto
    from hits_in_member [OF f(2)] gf f(1) show ?thesis by blast
  qed
  with len show ?thesis by blast
qed

theorem search_scope_hits_witness:
  "search_scope demo_env ''guides'' ''x'' 2 = Inr (take 2 demo_hits) \<and>
   length (take 2 demo_hits) \<le> effective_limit 2 \<and>
   (\<exists>files f lines.
        get_files_for_scope demo_env ''guides'' = Inr files \<and> f \<in> set files \<and>
        read_lines demo_env f = Some lines \<and>
        ''openai-docs-guides/b.md'' = rel_str (REPO_ROOT demo_env) f \<and>
        (3::int) \<le> int (length lines) \<and>
        (\<exists>a b. lower (lines ! nat (3 - 1)) = a @ lower ''x'' @ b) \<and>
        ''X three'' = strip (lines ! nat (3 - 1)))"
proof -
  have r: "search_scope demo_env ''guides'' ''x'' 2 = Inr (take 2 demo_hits)" by code_simp
  have h: "\<lparr>hit_file = ''openai-docs-guides/b.md'', hit_line = 3, hit_snippet = ''X three''\<rparr>
      \<in> set (take 2 demo_hits)" by code_simp
  from search_scope_hits [OF r] have
    "length (take 2 demo_hits) \<le> effective_limit 2" and
    b: "\<forall>h \<in> set (take 2 demo_hits). \<exists>files f lines.
        get_files_for_scope demo_env ''guides'' = Inr files \<and> f \<in> set files \<and>
        read_lines demo_env f = Some lines \<and> hit_file h = rel_str (REPO_ROOT demo_env) f \<and>
        1 \<le> hit_line h \<and> hit_line h \<le> int (length lines) \<and>
        (\<exists>a b. lower (lines ! nat (hit_line h - 1)) = a @ lower ''x'' @ b) \<and>
        hit_snippet h = strip (lines ! nat (hit_line h - 1))" by blast+
  with r bspec [OF b h] show ?thesis by simp
qed

text \<open>
  The claim as stated fails for a limit that is not positive: with \<open>limit = 0\<close> the
  search returns three hits.
\<close>

theorem search_scope_hits_counterexample:
  "search_scope demo_env ''guides'' ''x'' 0 = Inr demo_hits \<and> \<not> int (length demo_hits) \<le> 0"
  by code_simp

text \<open>
  Claim C5, amended. For every non-blank query on which \<open>search_scope\<close> returns, the scope
  is a recognised one and the files are visited in the order in which
  \<open>get_files_for_scope\<close> yields them: the roots of the scope in order, a Markdown file
  root itself, the Markdown files below a directory root in the order globbing enumerates
  them, neither sorted nor deduplicated. The returned hits are the first \<open>limit\<close> (20 when
  \<open>limit\<close> is not positive) of the hits of these files in that file order, the hits of one
  file in top-to-bottom line order.
\<close>

theorem search_scope_order:
  assumes "search_scope E scope query limit = Inr hits" and "strip query \<noteq> []"
  shows "\<exists>roots. map_of (SCOPE_PATHS (REPO_ROOT E)) scope = Some roots \<and>
      get_files_for_scope E scope = Inr (concat (map (scope_root_files E) roots)) \<and>
      hits = take (effective_limit limit)
        (concat (map (hits_in E query) (concat (map (scope_root_files E) roots)))) \<and>
      (\<forall>f. sorted_wrt (<) (map hit_line (hits_in E query f)) \<and>
           (\<forall>h \<in> set (hits_in E query f). hit_file h = rel_str (REPO_ROOT E) f))"
proof -
  from search_scope_Inr [OF assms] obtain roots where
    roots: "map_of (SCOPE_PATHS (REPO_ROOT E)) scope = Some roots" and
    hits: "hits = take (effective_limit limit)
      (concat (map (hits_in E query) (concat (map (scope_root_files E) roots))))" by blast
  have "get_files_for_scope E scope = Inr (concat (map (scope_root_files E) roots))"
    using roots by (simp add: get_files_for_scope_def)
  with roots hits show ?thesis using hits_in_sorted hits_in_file by blast
qed

theorem search_scope_order_witness:
  "search_scope demo_env ''guides'' ''x'' 10 = Inr demo_hits \<and> strip ''x'' \<noteq> [] \<and>
   (\<exists>roots. map_of (SCOPE_PATHS (REPO_ROOT demo_env)) ''guides'' = Some roots \<and>
      get_files_for_scope demo_env ''guides'' =
        Inr (concat (map (scope_root_files demo_env) roots)) \<and>
      demo_hits = take (effective_limit 10)
        (concat (map (hits_in demo_env ''x'') (concat (map (scope_root_files demo_env) roots)))))"
proof -
  have r: "search_scope demo_env ''guides'' ''x'' 10 = Inr demo_hits" by code_simp
  have q: "strip ''x'' \<noteq> []" by code_simp
  from search_scope_order [OF r q] r q show ?thesis by blast
qed

text \<open>
  The claim as stated fails where globbing does not enumerate in sorted order: the hits of
  \<open>b.md\<close> come before the hit of \<open>a.md\<close>, while the sorted listing of the scope puts
  \<open>a.md\<close> first.
\<close>

theorem search_scope_order_counterexample:
  "search_scope demo_env ''guides'' ''x'' 10 = Inr demo_hits \<and>
   map hit_file demo_hits =
     [''openai-docs-guides/b.md'', ''openai-docs-guides/b.md'', ''openai-docs-guides/a.md''] \<and>
   list_openai_doc_files demo_env ''guides'' =
     Inr [''openai-docs-guides/a.md'', ''openai-docs-guides/b.md''] \<and>
   \<not> sorted (map hit_file demo_hits)"
  by code_simp


section \<open>Listing the files of a scope\<close>

lemma join_first:
  assumes "CHR ''/'' \<notin> set c"
  shows "takeWhile (\<lambda>x. x \<noteq> CHR ''/'') (join ''/'' (c # cs)) = c"
proof (cases cs)
  case Nil
  then show ?thesis using assms by (auto simp: takeWhile_eq_all_conv)
next
  case (Cons d ds)
  have "takeWhile (\<lambda>x. x \<noteq> CHR ''/'') (c @ CHR ''/'' # join ''/'' (d # ds)) =
        takeWhile (\<lambda>x. x \<noteq> CHR ''/'') c"
    by (rule takeWhile_tail) simp
  then show ?thesis using assms Cons by (auto simp: takeWhile_eq_all_conv)
qed

lemma join_rest:
  assumes "CHR ''/'' \<notin> set c"
  shows "dropWhile (\<lambda>x. x \<noteq> CHR ''/'') (join ''/'' (c # cs)) =
         (if cs = [] then [] else CHR ''/'' # join ''/'' cs)"
proof (cases cs)
  case Nil
  then show ?thesis using assms by auto
next
  case (Cons d ds)
  have "dropWhile (\<lambda>x. x \<noteq> CHR ''/'') (c @ CHR ''/'' # join ''/'' (d # ds)) =
        CHR ''/'' # join ''/'' (d # ds)"
    using assms by (simp add: dropWhile_append)
  then show ?thesis using Cons by simp
qed

lemma join_nonempty: "c \<noteq> [] \<Longrightarrow> join ''/'' (c # cs) \<noteq> []"
  by (cases cs) auto

lemma join_slash_inj:
  assumes "list_all clean_component cs" "list_all clean_component ds"
    and "join ''/'' cs = join ''/'' ds"
  shows "cs = ds"
  using assms
proof (induction cs arbitrary: ds)
  case Nil
  show ?case
  proof (cases ds)
    case Nil
    then show ?thesis by simp
  next
    case (Cons d ds')
    then have "d \<noteq> []" using Nil.prems(2) by (simp add: clean_component_def)
    then have "join ''/'' (d # ds') \<noteq> []" by (rule join_nonempty)
    with Nil.prems(3) Cons show ?thesis by simp
  qed
next
  case (Cons c cs)
  show ?case
  proof (cases ds)
    case Nil
    with Cons.prems show ?thesis
      using join_nonempty [of c cs] by (auto simp: clean_component_def)
  next
    case (Cons d ds')
    have c: "CHR ''/'' \<notin> set c" and d: "CHR ''/'' \<notin> set d"
      using Cons.prems(1,2) Cons by (auto simp: clean_component_def)
    have eq: "join ''/'' (c # cs) = join ''/'' (d # ds')" using Cons.prems(3) Cons by simp
    have "takeWhile (\<lambda>x. x \<noteq> CHR ''/'') (join ''/'' (c # cs)) =
          takeWhile (\<lambda>x. x \<noteq> CHR ''/'') (join ''/'' (d # ds'))" using eq by simp
    then have cd: "c = d" by (simp add: join_first c d)
    have "dropWhile (\<lambda>x. x \<noteq> CHR ''/'') (join ''/'' (c # cs)) =
          dropWhile (\<lambda>x. x \<noteq> CHR ''/'') (join ''/'' (d # ds'))" using eq by simp
    then have r: "(if cs = [] then [] else CHR ''/'' # join ''/'' cs) =
                  (if ds' = [] then [] else CHR ''/'' # join ''/'' ds')"
      by (simp only: join_rest [OF c] join_rest [OF d])
    have "cs = ds'"
    proof (cases "cs = []")
      case True
      with r show ?thesis by (auto split: if_splits)
    next
      case False
      with r have "ds' \<noteq> []" "join ''/'' cs = join ''/'' ds'" by (auto split: if_splits)
      with Cons.IH [of ds'] Cons.prems(1,2) Cons show ?thesis by simp
    qed
    with cd Cons show ?thesis by simp
  qed
qed

lemma str_path_Abs_hd:
  "hd (str_path (Abs cs)) = CHR ''/''"
  by (cases cs) auto

lemma str_path_Rel_hd:
  assumes "list_all clean_component cs"
  shows "hd (str_path (Rel cs)) \<noteq> CHR ''/''"
proof (cases cs)
  case Nil
  then show ?thesis by simp
next
  case (Cons c cs')
  then have c: "c \<noteq> []" "CHR ''/'' \<notin> set c" using assms by (auto simp: clean_component_def)
  then have "hd (join ''/'' (c # cs')) = hd c" by (cases cs') auto
  moreover have "hd c \<noteq> CHR ''/''" using c by (cases c) auto
  ultimately show ?thesis using Cons by simp
qed

lemma str_path_Abs_inj:
  assumes "list_all clean_component cs" "list_all clean_component ds"
    and "str_path (Abs cs) = str_path (Abs ds)"
  shows "cs = ds"
proof -
  have "join ''/'' cs = join ''/'' ds"
  proof (cases cs)
    case Nil
    with assms show ?thesis
      using join_nonempty by (cases ds) (auto simp: clean_component_def)
  next
    case (Cons c cs')
    with assms show ?thesis
      using join_nonempty by (cases ds) (auto simp: clean_component_def)
  qed
  with assms(1,2) show ?thesis by (rule join_slash_inj)
qed

lemma str_path_Rel_inj:
  assumes "list_all clean_component cs" "list_all clean_component ds"
    and "str_path (Rel cs) = str_path (Rel ds)"
  shows "cs = ds"
proof -
  have dot: "join ''/'' (c # cs') \<noteq> ''.''" if "clean_component c" for c cs'
  proof
    assume "join ''/'' (c # cs') = ''.''"
    then have "takeWhile (\<lambda>x. x \<noteq> CHR ''/'') (join ''/'' (c # cs')) = ''.''" by simp
    then show False using that by (simp add: join_first clean_component_def)
  qed
  have "join ''/'' cs = join ''/'' ds"
  proof (cases cs)
    case Nil
    with assms dot show ?thesis by (cases ds) auto
  next
    case (Cons c cs')
    with assms dot [of c cs'] show ?thesis by (cases ds) auto
  qed
  with assms(1,2) show ?thesis by (rule join_slash_inj)
qed

lemma rel_str_inj:
  assumes "resolved_path p" "resolved_path q" and "rel_str r p = rel_str r q"
  shows "p = q"
proof -
  from assms(1,2) obtain cs ds where p: "p = Abs cs" and q: "q = Abs ds"
    and cs: "list_all clean_component cs" and ds: "list_all clean_component ds"
    by (auto simp: resolved_path_def split: path.splits)
  show ?thesis
  proof (cases r)
    case (Rel rs)
    with assms(3) p q have "str_path (Abs cs) = str_path (Abs ds)" by (simp add: rel_str_def)
    with cs ds p q show ?thesis by (simp add: str_path_Abs_inj)
  next
    case (Abs rs)
    have dcs: "list_all clean_component (drop (length rs) cs)"
      and dds: "list_all clean_component (drop (length rs) ds)"
      using cs ds by (auto simp: list_all_iff dest: in_set_dropD)
    show ?thesis
    proof (cases "prefix rs cs")
      case True
      note pc = this
      show ?thesis
      proof (cases "prefix rs ds")
        case True
        with pc assms(3) p q Abs
        have "str_path (Rel (drop (length rs) cs)) = str_path (Rel (drop (length rs) ds))"
          by (simp add: rel_str_def)
        then have "drop (length rs) cs = drop (length rs) ds"
          using dcs dds by (simp add: str_path_Rel_inj)
        moreover from pc True have "cs = rs @ drop (length rs) cs" "ds = rs @ drop (length rs) ds"
          by (auto simp: prefix_def)
        ultimately show ?thesis using p q by metis
      next
        case False
        with pc assms(3) p q Abs
        have "str_path (Rel (drop (length rs) cs)) = str_path (Abs ds)"
          by (simp add: rel_str_def)
        then show ?thesis using str_path_Rel_hd [OF dcs] str_path_Abs_hd [of ds] by simp
      qed
    next
      case False
      note pc = this
      show ?thesis
      proof (cases "prefix rs ds")
        case True
        with pc assms(3) p q Abs
        have "str_path (Abs cs) = str_path (Rel (drop (length rs) ds))"
          by (simp add: rel_str_def)
        then show ?thesis using str_path_Rel_hd [OF dds] str_path_Abs_hd [of cs] by simp
      next
        case False
        with pc assms(3) p q Abs have "str_path (Abs cs) = str_path (Abs ds)"
          by (simp add: rel_str_def)
        with cs ds p q show ?thesis by (simp add: str_path_Abs_inj)
      qed
    qed
  qed
qed

lemma fold_add_resolved:
  assumes "fst st = set (snd st)" "distinct (snd st)"
  shows "fst (fold (add_resolved E) ps st) = set (snd (fold (add_resolved E) ps st)) \<and>
         distinct (snd (fold (add_resolved E) ps st)) \<and>
         set (snd (fold (add_resolved E) ps st)) = set (snd st) \<union> resolve E ` set ps"
  using assms
proof (induction ps arbitrary: st)
  case Nil
  then show ?case by simp
next
  case (Cons p ps)
  let ?st = "add_resolved E p st"
  have a: "fst ?st = set (snd ?st)" "distinct (snd ?st)"
    "set (snd ?st) = set (snd st) \<union> {resolve E p}"
    using Cons.prems by (auto simp: add_resolved_def Let_def)
  from Cons.IH [OF a(1,2)] a(3) show ?case by auto
qed

lemma fold_roots:
  assumes "fst st = set (snd st)" "distinct (snd st)"
  shows "fst (fold (\<lambda>r st. fold (add_resolved E) (candidate_files E r) st) roots st) =
           set (snd (fold (\<lambda>r st. fold (add_resolved E) (candidate_files E r) st) roots st)) \<and>
         distinct (snd (fold (\<lambda>r st. fold (add_resolved E) (candidate_files E r) st) roots st)) \<and>
         set (snd (fold (\<lambda>r st. fold (add_resolved E) (candidate_files E r) st) roots st)) =
           set (snd st) \<union> resolve E ` (\<Union>r \<in> set roots. set (candidate_files E r))"
  using assms
proof (induction roots arbitrary: st)
  case Nil
  then show ?case by simp
next
  case (Cons r roots)
  let ?st = "fold (add_resolved E) (candidate_files E r) st"
  from fold_add_resolved [OF Cons.prems, of E "candidate_files E r"]
  have a: "fst ?st = set (snd ?st)" "distinct (snd ?st)"
    "set (snd ?st) = set (snd st) \<union> resolve E ` set (candidate_files E r)" by auto
  from Cons.IH [OF a(1,2)] a(3) show ?case by auto
qed

lemma collect_files_set:
  "distinct (snd (collect_files E roots)) \<and>
   set (snd (collect_files E roots)) = resolve E ` (\<Union>r \<in> set roots. set (candidate_files E r))"
  using fold_roots [of "({}, [])" E roots] by (simp add: collect_files_def)

lemma startswith_slash_Abs: "startswith (str_path (Abs cs)) ''/''"
  by (cases cs) (simp_all add: startswith_def)

lemma startswith_slash_Rel:
  assumes "list_all clean_component cs"
  shows "\<not> startswith (str_path (Rel cs)) ''/''"
proof
  assume "startswith (str_path (Rel cs)) ''/''"
  then obtain t where "str_path (Rel cs) = CHR ''/'' # t"
    by (auto simp: startswith_def prefix_def)
  then have "hd (str_path (Rel cs)) = CHR ''/''" by simp
  with str_path_Rel_hd [OF assms] show False by simp
qed

lemma rel_str_absolute_iff:
  assumes "resolved_path p"
  shows "startswith (rel_str r p) ''/'' \<longleftrightarrow> relative_to p r = None"
proof -
  from assms obtain cs where p: "p = Abs cs" and cs: "list_all clean_component cs"
    by (auto simp: resolved_path_def split: path.splits)
  show ?thesis
  proof (cases "relative_to p r")
    case None
    then show ?thesis using p by (simp add: rel_str_def startswith_slash_Abs)
  next
    case (Some q)
    show ?thesis
    proof (cases r)
      case (Rel rs)
      with Some p show ?thesis by simp
    next
      case (Abs rs)
      with Some p have q: "q = Rel (drop (length rs) cs)" by (auto split: if_splits)
      have "list_all clean_component (drop (length rs) cs)"
        using cs by (auto simp: list_all_iff dest: in_set_dropD)
      then have "\<not> startswith (str_path q) ''/''" unfolding q by (rule startswith_slash_Rel)
      with Some show ?thesis by (simp add: rel_str_def)
    qed
  qed
qed

text \<open>
  Claim C6, amended. For every recognised scope (and for any list of roots, overlapping or
  nested as they may be), provided the candidates resolve to well-formed absolute paths,
  \<open>list_openai_doc_files\<close> returns path strings sorted in strictly ascending order, one
  for each distinct resolved path and different strings for different resolved paths: no
  two entries denote the same resolved absolute path. An entry is a relative path string
  when the resolved path lies under the repository root, and an absolute path string,
  beginning with a slash, exactly when it does not.
\<close>

theorem list_files_sorted_distinct:
  assumes "\<forall>r \<in> set roots. \<forall>p \<in> set (candidate_files E r). resolved_path (resolve E p)"
  shows "sorted_wrt (<) (sort (map (rel_str (REPO_ROOT E)) (snd (collect_files E roots)))) \<and>
     set (sort (map (rel_str (REPO_ROOT E)) (snd (collect_files E roots)))) =
       rel_str (REPO_ROOT E) ` resolve E ` (\<Union>r \<in> set roots. set (candidate_files E r)) \<and>
     length (sort (map (rel_str (REPO_ROOT E)) (snd (collect_files E roots)))) =
       card (resolve E ` (\<Union>r \<in> set roots. set (candidate_files E r))) \<and>
     inj_on (rel_str (REPO_ROOT E))
       (resolve E ` (\<Union>r \<in> set roots. set (candidate_files E r))) \<and>
     (map_of (SCOPE_PATHS (REPO_ROOT E)) scope = Some roots \<longrightarrow>
        list_openai_doc_files E scope =
          Inr (sort (map (rel_str (REPO_ROOT E)) (snd (collect_files E roots))))) \<and>
     (\<forall>p \<in> resolve E ` (\<Union>r \<in> set roots. set (candidate_files E r)).
        startswith (rel_str (REPO_ROOT E) p) ''/'' \<longleftrightarrow>
        relative_to p (REPO_ROOT E) = None)"
proof -
  let ?files = "snd (collect_files E roots)"
  let ?F = "resolve E ` (\<Union>r \<in> set roots. set (candidate_files E r))"
  have d: "distinct ?files" and s: "set ?files = ?F" using collect_files_set by auto
  have res: "\<forall>p \<in> ?F. resolved_path p" using assms by auto
  have inj: "inj_on (rel_str (REPO_ROOT E)) ?F"
  proof (rule inj_onI)
    fix p q assume "p \<in> ?F" "q \<in> ?F" "rel_str (REPO_ROOT E) p = rel_str (REPO_ROOT E) q"
    with res show "p = q" using rel_str_inj by blast
  qed
  have dm: "distinct (map (rel_str (REPO_ROOT E)) ?files)"
    using d inj s by (simp add: distinct_map)
  have f1: "sorted_wrt (<) (sort (map (rel_str (REPO_ROOT E)) ?files))"
    using dm by (simp add: strict_sorted_iff)
  have f2: "set (sort (map (rel_str (REPO_ROOT E)) ?files)) = rel_str (REPO_ROOT E) ` ?F"
    using s by simp
  have f3: "length (sort (map (rel_str (REPO_ROOT E)) ?files)) = card ?F"
    using d s distinct_card [of ?files] by simp
  have f5: "map_of (SCOPE_PATHS (REPO_ROOT E)) scope = Some roots \<longrightarrow>
        list_openai_doc_files E scope = Inr (sort (map (rel_str (REPO_ROOT E)) ?files))"
    by (simp add: list_openai_doc_files_def)
  have f6: "\<forall>p \<in> ?F. startswith (rel_str (REPO_ROOT E) p) ''/'' \<longleftrightarrow>
        relative_to p (REPO_ROOT E) = None"
  proof
    fix p assume "p \<in> ?F"
    with res have "resolved_path p" by (rule bspec)
    then show "startswith (rel_str (REPO_ROOT E) p) ''/'' \<longleftrightarrow>
        relative_to p (REPO_ROOT E) = None"
      by (rule rel_str_absolute_iff)
  qed
  show ?thesis by (intro conjI f1 f2 f3 inj f5 f6)
qed

theorem list_files_sorted_distinct_witness:
  "list_all (\<lambda>p. resolved_path (resolve symlink_env p))
     (candidate_files symlink_env (Abs [''repo'', ''openai-docs-guides''])) \<and>
   map_of (SCOPE_PATHS (REPO_ROOT symlink_env)) ''guides'' =
     Some [Abs [''repo'', ''openai-docs-guides'']] \<and>
   candidate_files symlink_env (Abs [''repo'', ''openai-docs-guides'']) =
     [Abs [''repo'', ''openai-docs-guides'', ''b.md''],
      Abs [''repo'', ''openai-docs-guides'', ''a.md'']] \<and>
   list_openai_doc_files symlink_env ''guides'' = Inr [''openai-docs-guides/a.md''] \<and>
   sorted_wrt (<) [''openai-docs-guides/a.md''] \<and>
   \<not> startswith
       (rel_str (REPO_ROOT symlink_env) (Abs [''repo'', ''openai-docs-guides'', ''a.md'']))
       ''/''"
proof -
  let ?roots = "[Abs [''repo'', ''openai-docs-guides'']]"
  let ?a = "Abs [''repo'', ''openai-docs-guides'', ''a.md'']"
  have h0: "list_all (\<lambda>p. resolved_path (resolve symlink_env p))
     (candidate_files symlink_env (Abs [''repo'', ''openai-docs-guides'']))" by code_simp
  then have h1: "\<forall>r \<in> set ?roots.
      \<forall>p \<in> set (candidate_files symlink_env r). resolved_path (resolve symlink_env p)"
    by (simp add: list_all_iff)
  have m1: "map_of (SCOPE_PATHS (REPO_ROOT symlink_env)) ''guides'' = Some ?roots"
    by code_simp
  have c: "candidate_files symlink_env (Abs [''repo'', ''openai-docs-guides'']) =
     [Abs [''repo'', ''openai-docs-guides'', ''b.md''], ?a]" by code_simp
  have e1: "sort (map (rel_str (REPO_ROOT symlink_env)) (snd (collect_files symlink_env ?roots))) =
      [''openai-docs-guides/a.md'']" by code_simp
  have ra: "resolve symlink_env ?a = ?a" by code_simp
  have u: "relative_to ?a (REPO_ROOT symlink_env) \<noteq> None" by code_simp
  have "?a \<in> set (candidate_files symlink_env (Abs [''repo'', ''openai-docs-guides'']))"
    unfolding c by simp
  then have "resolve symlink_env ?a \<in>
      resolve symlink_env ` (\<Union>r \<in> set ?roots. set (candidate_files symlink_env r))"
    by (intro imageI) simp
  then have i: "?a \<in>
      resolve symlink_env ` (\<Union>r \<in> set ?roots. set (candidate_files symlink_env r))"
    unfolding ra .
  note T = list_files_sorted_distinct [OF h1, of "''guides''"]
  have s: "sorted_wrt (<) [''openai-docs-guides/a.md'']"
    using T [THEN conjunct1] unfolding e1 .
  have l: "list_openai_doc_files symlink_env ''guides'' = Inr [''openai-docs-guides/a.md'']"
    using T [THEN conjunct2, THEN conjunct2, THEN conjunct2, THEN conjunct2, THEN conjunct1]
      m1 unfolding e1 by (rule mp)
  have x: "startswith (rel_str (REPO_ROOT symlink_env) ?a) ''/'' \<longleftrightarrow>
      relative_to ?a (REPO_ROOT symlink_env) = None"
    by (rule T [THEN conjunct2, THEN conjunct2, THEN conjunct2, THEN conjunct2,
          THEN conjunct2, THEN bspec, OF i])
  have r: "\<not> startswith (rel_str (REPO_ROOT symlink_env) ?a) ''/''"
    unfolding x by (rule u)
  show ?thesis by (intro conjI h0 m1 c l s r)
qed

text \<open>
  The claim as stated has every entry a relative path string. Where \<open>b.md\<close> resolves to
  a file outside the repository, \<^verbatim>\<open>relative_to\<close> raises and the entry is the absolute path.
\<close>

theorem list_files_sorted_distinct_counterexample:
  "list_all (\<lambda>p. resolved_path (resolve outside_env p))
     (candidate_files outside_env (Abs [''repo'', ''openai-docs-guides''])) \<and>
   list_openai_doc_files outside_env ''guides'' =
     Inr [''/tmp/outside.md'', ''openai-docs-guides/a.md''] \<and>
   startswith ''/tmp/outside.md'' ''/''"
  by code_simp


section \<open>The newest file\<close>

lemma fold_update_latest:
  assumes "fold (update_latest E) cs (m0, p0) = (m, p)"
  shows "((m, p) = (m0, p0) \<and> (\<forall>c \<in> set cs. \<forall>t. st_mtime E c = Some t \<longrightarrow> t \<le> m0)) \<or>
         (\<exists>pre c post. cs = pre @ c # post \<and> p = Some c \<and> st_mtime E c = Some m \<and> m0 < m \<and>
            (\<forall>c' \<in> set pre. \<forall>t. st_mtime E c' = Some t \<longrightarrow> t < m) \<and>
            (\<forall>c' \<in> set post. \<forall>t. st_mtime E c' = Some t \<longrightarrow> t \<le> m))"
  using assms
proof (induction cs arbitrary: m0 p0)
  case Nil
  then show ?case by simp
next
  case (Cons c cs)
  show ?case
  proof (cases "\<exists>t. st_mtime E c = Some t \<and> t > m0")
    case True
    then obtain t where t: "st_mtime E c = Some t" "t > m0" by blast
    then have "update_latest E c (m0, p0) = (t, Some c)" by (simp add: update_latest_def)
    with Cons.prems have f: "fold (update_latest E) cs (t, Some c) = (m, p)" by simp
    from Cons.IH [OF f] show ?thesis
    proof
      assume a: "(m, p) = (t, Some c) \<and> (\<forall>c \<in> set cs. \<forall>t'. st_mtime E c = Some t' \<longrightarrow> t' \<le> t)"
      then have "c # cs = [] @ c # cs \<and> p = Some c \<and> st_mtime E c = Some m \<and> m0 < m \<and>
            (\<forall>c' \<in> set []. \<forall>t. st_mtime E c' = Some t \<longrightarrow> t < m) \<and>
            (\<forall>c' \<in> set cs. \<forall>t. st_mtime E c' = Some t \<longrightarrow> t \<le> m)"
        using t by auto
      then show ?thesis by blast
    next
      assume "\<exists>pre c' post. cs = pre @ c' # post \<and> p = Some c' \<and> st_mtime E c' = Some m \<and>
            t < m \<and> (\<forall>c' \<in> set pre. \<forall>t. st_mtime E c' = Some t \<longrightarrow> t < m) \<and>
            (\<forall>c' \<in> set post. \<forall>t. st_mtime E c' = Some t \<longrightarrow> t \<le> m)"
      then obtain pre c' post where b: "cs = pre @ c' # post" "p = Some c'"
        "st_mtime E c' = Some m" "t < m"
        "\<forall>c' \<in> set pre. \<forall>t. st_mtime E c' = Some t \<longrightarrow> t < m"
        "\<forall>c' \<in> set post. \<forall>t. st_mtime E c' = Some t \<longrightarrow> t \<le> m" by blast
      have "c # cs = (c # pre) @ c' # post \<and> p = Some c' \<and> st_mtime E c' = Some m \<and> m0 < m \<and>
            (\<forall>c' \<in> set (c # pre). \<forall>t. st_mtime E c' = Some t \<longrightarrow> t < m) \<and>
            (\<forall>c' \<in> set post. \<forall>t. st_mtime E c' = Some t \<longrightarrow> t \<le> m)"
        using b t by auto
      then show ?thesis by blast
    qed
  next
    case False
    then have le: "\<forall>t. st_mtime E c = Some t \<longrightarrow> t \<le> m0" by auto
    from False have "update_latest E c (m0, p0) = (m0, p0)"
      by (auto simp: update_latest_def split: option.splits)
    with Cons.prems have f: "fold (update_latest E) cs (m0, p0) = (m, p)" by simp
    from Cons.IH [OF f] show ?thesis
    proof
      assume "(m, p) = (m0, p0) \<and> (\<forall>c \<in> set cs. \<forall>t. st_mtime E c = Some t \<longrightarrow> t \<le> m0)"
      with le show ?thesis by auto
    next
      assume "\<exists>pre c' post. cs = pre @ c' # post \<and> p = Some c' \<and> st_mtime E c' = Some m \<and>
            m0 < m \<and> (\<forall>c' \<in> set pre. \<forall>t. st_mtime E c' = Some t \<longrightarrow> t < m) \<and>
            (\<forall>c' \<in> set post. \<forall>t. st_mtime E c' = Some t \<longrightarrow> t \<le> m)"
      then obtain pre c' post where b: "cs = pre @ c' # post" "p = Some c'"
        "st_mtime E c' = Some m" "m0 < m"
        "\<forall>c' \<in> set pre. \<forall>t. st_mtime E c' = Some t \<longrightarrow> t < m"
        "\<forall>c' \<in> set post. \<forall>t. st_mtime E c' = Some t \<longrightarrow> t \<le> m" by blast
      have "c # cs = (c # pre) @ c' # post \<and> p = Some c' \<and> st_mtime E c' = Some m \<and> m0 < m \<and>
            (\<forall>c' \<in> set (c # pre). \<forall>t. st_mtime E c' = Some t \<longrightarrow> t < m) \<and>
            (\<forall>c' \<in> set post. \<forall>t. st_mtime E c' = Some t \<longrightarrow> t \<le> m)"
        using b le by fastforce
      then show ?thesis by blast
    qed
  qed
qed

lemma walk_roots_concat:
  "fold (\<lambda>r st. fold (update_latest E) (candidate_files E r) st) roots st =
   fold (update_latest E) (concat (map (candidate_files E) roots)) st"
  by (induction roots arbitrary: st) simp_all

lemma walk_roots_newest:
  assumes "walk_roots E roots = (m, p)"
  shows "(p = None \<and> (\<forall>c \<in> set (concat (map (candidate_files E) roots)).
              \<forall>t. st_mtime E c = Some t \<longrightarrow> t \<le> 0)) \<or>
         (\<exists>pre c post. concat (map (candidate_files E) roots) = pre @ c # post \<and>
            p = Some c \<and> st_mtime E c = Some m \<and> 0 < m \<and>
            (\<forall>c' \<in> set pre. \<forall>t. st_mtime E c' = Some t \<longrightarrow> t < m) \<and>
            (\<forall>c' \<in> set post. \<forall>t. st_mtime E c' = Some t \<longrightarrow> t \<le> m))"
  using fold_update_latest [of E "concat (map (candidate_files E) roots)" 0 None m p] assms
  by (auto simp: walk_roots_def walk_roots_concat)

text \<open>
  What the walk reports: the first candidate, in walk order, among those with the greatest
  modification time, provided that time is positive; the repository root when no candidate
  has a positive modification time.
\<close>

lemma newest_file_reported:
  assumes "get_last_update_metadata E = Inr md"
  shows "(\<exists>pre c post. all_candidates E = pre @ c # post \<and>
            st_mtime E c = Some (last_modified_unix md) \<and> 0 < last_modified_unix md \<and>
            last_modified_file md = rel_str (REPO_ROOT E) c \<and>
            (\<forall>c' \<in> set pre. \<forall>t. st_mtime E c' = Some t \<longrightarrow> t < last_modified_unix md) \<and>
            (\<forall>c' \<in> set post. \<forall>t. st_mtime E c' = Some t \<longrightarrow> t \<le> last_modified_unix md)) \<or>
         ((\<forall>c \<in> set (all_candidates E). \<forall>t. st_mtime E c = Some t \<longrightarrow> t \<le> 0) \<and>
          st_mtime E (REPO_ROOT E) = Some (last_modified_unix md) \<and>
          last_modified_file md = rel_str (REPO_ROOT E) (REPO_ROOT E))"
proof -
  let ?roots = "concat (map snd (SCOPE_PATHS (REPO_ROOT E)))"
  obtain m p where w: "walk_roots E ?roots = (m, p)" by (cases "walk_roots E ?roots") auto
  show ?thesis
  proof (cases p)
    case None
    with w assms have r: "st_mtime E (REPO_ROOT E) = Some (last_modified_unix md)"
      "last_modified_file md = rel_str (REPO_ROOT E) (REPO_ROOT E)"
      by (auto simp: get_last_update_metadata_def Let_def split: option.splits)
    from walk_roots_newest [OF w] None
    have "\<forall>c \<in> set (all_candidates E). \<forall>t. st_mtime E c = Some t \<longrightarrow> t \<le> 0"
      by (auto simp: all_candidates_def)
    with r show ?thesis by blast
  next
    case (Some c)
    with w assms have r: "last_modified_unix md = m"
      "last_modified_file md = rel_str (REPO_ROOT E) c"
      by (auto simp: get_last_update_metadata_def Let_def)
    from walk_roots_newest [OF w] Some obtain pre post where
      "all_candidates E = pre @ c # post" "st_mtime E c = Some m" "0 < m"
      "\<forall>c' \<in> set pre. \<forall>t. st_mtime E c' = Some t \<longrightarrow> t < m"
      "\<forall>c' \<in> set post. \<forall>t. st_mtime E c' = Some t \<longrightarrow> t \<le> m"
      by (auto simp: all_candidates_def)
    with r show ?thesis by blast
  qed
qed

text \<open>
  Claim C9. The code does not meet the claim on a repository whose Markdown files all
  have a modification time of 0 or less: the comparison \<open>mtime > latest_mtime\<close> starts
  from \<open>latest_mtime = 0.0\<close>, so such a file never becomes \<open>latest_path\<close>, and the
  fallback reports the repository root although a Markdown file was found. Here the one
  candidate has modification time 0, and the root (time 1700000000, identity \<open>.\<close>) is
  reported.
\<close>

theorem newest_file_epoch:
  "candidate_files epoch_env (Abs [''repo'', ''openai-docs-unified.md'']) =
     [Abs [''repo'', ''openai-docs-unified.md'']] \<and>
   st_mtime epoch_env (Abs [''repo'', ''openai-docs-unified.md'']) = Some 0 \<and>
   st_mtime epoch_env (REPO_ROOT epoch_env) = Some 1700000000 \<and>
   get_last_update_metadata epoch_env =
     Inr \<lparr>repo_root = ''/repo'', last_modified_unix = 1700000000, last_modified_file = ''.''\<rparr>"
  by code_simp

end
